theory Spec2Isabelle
  imports Main "HOL-Library.Word" "HOL-Library.Char_ord" "HOL-Library.List_Lexorder"
begin

section \<open>Asset chaincode: the data model\<close>

text \<open>
  The contract of \<^verbatim>\<open>chaincode/smartcontract.go\<close> manages Asset records in the world
  state of a ledger. A Go \<^verbatim>\<open>string\<close> is a sequence of bytes (\<^typ>\<open>string\<close>, one
  \<^typ>\<open>char\<close> per byte); a Go \<^verbatim>\<open>int\<close> is a 64-bit two's complement integer, read
  with \<^const>\<open>sint\<close>.
\<close>

record Asset =
  ID :: string
  Color :: string
  Size :: "64 word"
  Owner :: string
  AppraisedValue :: "64 word"

text \<open>The zero value of the struct: what \<^verbatim>\<open>var a Asset\<close> declares.\<close>

definition zero_Asset :: Asset where
  "zero_Asset = \<lparr>ID = [], Color = [], Size = 0, Owner = [], AppraisedValue = 0\<rparr>"

text \<open>
  The errors the contract returns. Go builds them as messages; the model keeps the kind,
  and the asset id where the message names it.
\<close>

datatype error =
    DecodeError
  | MarshalError
  | AlreadyExists string
  | NotFound string
  | StoreError

section \<open>The codec: \<^verbatim>\<open>encoding/json\<close> on the Asset struct\<close>

text \<open>
  The contract calls \<^verbatim>\<open>json.Marshal\<close> and \<^verbatim>\<open>json.Unmarshal\<close> of Go's standard
  library on the struct above. This section models the two on bytes: the text that
  Marshal writes for the five tagged fields, and the reading of any byte sequence by
  Unmarshal (syntax check of the whole input, then the members of the top-level object
  stored into the fields they name).
\<close>

subsection \<open>Bytes\<close>

abbreviation byte :: "char \<Rightarrow> nat" where
  "byte c \<equiv> of_char c"

abbreviation dquote :: char where
  "dquote \<equiv> CHR 0x22"

abbreviation backslash :: char where
  "backslash \<equiv> CHR 0x5C"

definition isDigit :: "char \<Rightarrow> bool" where
  "isDigit c = (48 \<le> byte c \<and> byte c \<le> 57)"

definition isSpace :: "char \<Rightarrow> bool" where
  "isSpace c = (c = CHR 0x20 \<or> c = CHR 0x09 \<or> c = CHR 0x0D \<or> c = CHR 0x0A)"

definition hexval :: "char \<Rightarrow> nat option" where
  "hexval c = (let b = byte c in
     if 48 \<le> b \<and> b \<le> 57 then Some (b - 48)
     else if 97 \<le> b \<and> b \<le> 102 then Some (b - 87)
     else if 65 \<le> b \<and> b \<le> 70 then Some (b - 55)
     else None)"

definition hexdigit :: "nat \<Rightarrow> char" where
  "hexdigit n = (if n < 10 then char_of (48 + n) else char_of (87 + n))"

subsection \<open>UTF-8\<close>

text \<open>
  \<^verbatim>\<open>utf8.DecodeRune\<close>: the length of the well-formed UTF-8 sequence at the head of the
  input, 0 when the head is not one (Go then yields \<^verbatim>\<open>RuneError\<close> of width 1). As in
  Go, the first byte gives the length of the sequence and the range that the second byte
  must lie in; the later bytes are continuation bytes.
\<close>

definition seq_len :: "char \<Rightarrow> nat" where
  "seq_len c = (let b = byte c in
     if b < 0x80 then 1
     else if b < 0xC2 then 0
     else if b < 0xE0 then 2
     else if b < 0xF0 then 3
     else if b < 0xF5 then 4
     else 0)"

definition accept_lo :: "char \<Rightarrow> nat" where
  "accept_lo c = (if byte c = 0xE0 then 0xA0 else if byte c = 0xF0 then 0x90 else 0x80)"

definition accept_hi :: "char \<Rightarrow> nat" where
  "accept_hi c = (if byte c = 0xED then 0x9F else if byte c = 0xF4 then 0x8F else 0xBF)"

definition is_cont :: "char \<Rightarrow> bool" where
  "is_cont c = (0x80 \<le> byte c \<and> byte c \<le> 0xBF)"

definition utf8_size :: "string \<Rightarrow> nat" where
  "utf8_size s = (case s of [] \<Rightarrow> 0 | c # cs \<Rightarrow>
     (let sz = seq_len c in
      if sz \<le> 1 then sz
      else if length cs < sz - 1 then 0
      else if byte (cs ! 0) < accept_lo c \<or> accept_hi c < byte (cs ! 0) then 0
      else if sz \<le> 2 then 2
      else if \<not> is_cont (cs ! 1) then 0
      else if sz \<le> 3 then 3
      else if \<not> is_cont (cs ! 2) then 0
      else 4))"

text \<open>\<^verbatim>\<open>utf8.EncodeRune\<close>: surrogates and values past U+10FFFF become U+FFFD.\<close>

definition replacement :: string where
  "replacement = [CHR 0xEF, CHR 0xBF, CHR 0xBD]"

definition EncodeRune :: "nat \<Rightarrow> string" where
  "EncodeRune r =
     (if r < 0x80 then [char_of r]
      else if r < 0x800 then [char_of (0xC0 + r div 64), char_of (0x80 + r mod 64)]
      else if 0x10FFFF < r \<or> (0xD800 \<le> r \<and> r < 0xE000) then replacement
      else if r < 0x10000 then
        [char_of (0xE0 + r div 4096), char_of (0x80 + r div 64 mod 64), char_of (0x80 + r mod 64)]
      else
        [char_of (0xF0 + r div 262144), char_of (0x80 + r div 4096 mod 64),
         char_of (0x80 + r div 64 mod 64), char_of (0x80 + r mod 64)])"

text \<open>A string is valid UTF-8 when it splits into well-formed sequences.\<close>

fun utf8_valid :: "string \<Rightarrow> bool" where
  "utf8_valid [] = True"
| "utf8_valid (c # cs) =
     (0 < utf8_size (c # cs) \<and> utf8_valid (drop (utf8_size (c # cs) - 1) cs))"

subsection \<open>Writing: \<^verbatim>\<open>json.Marshal\<close>\<close>

text \<open>
  \<^verbatim>\<open>strconv.AppendInt\<close> in base 10: the digits of the magnitude, most significant first,
  after a minus sign for a negative value.
\<close>

fun digits_of :: "nat \<Rightarrow> string" where
  "digits_of n = (if n < 10 then [char_of (48 + n)]
     else digits_of (n div 10) @ [char_of (48 + n mod 10)])"

declare digits_of.simps [simp del]

definition FormatInt :: "int \<Rightarrow> string" where
  "FormatInt i = (if i < 0 then CHR ''-'' # digits_of (nat (- i)) else digits_of (nat i))"

text \<open>
  The string encoder of Marshal (\<^verbatim>\<open>appendString\<close> with HTML escaping on). Printable
  ASCII is copied, except the quote, the backslash and \<^verbatim>\<open><\<close>, \<^verbatim>\<open>>\<close>, \<^verbatim>\<open>&\<close>; the
  other ASCII bytes are escaped. A well-formed multi-byte sequence is copied, except
  U+2028 and U+2029; a byte that starts no well-formed sequence is written as
  the escape of U+FFFD.
\<close>

definition htmlSafe :: "char \<Rightarrow> bool" where
  "htmlSafe c = (0x20 \<le> byte c \<and> byte c < 0x80 \<and> c \<noteq> dquote \<and> c \<noteq> backslash
     \<and> c \<noteq> CHR ''<'' \<and> c \<noteq> CHR ''>'' \<and> c \<noteq> CHR ''&'')"

definition escape_byte :: "char \<Rightarrow> string" where
  "escape_byte c =
     (if c = backslash \<or> c = dquote then [backslash, c]
      else if c = CHR 0x08 then [backslash, CHR ''b'']
      else if c = CHR 0x0C then [backslash, CHR ''f'']
      else if c = CHR 0x0A then [backslash, CHR ''n'']
      else if c = CHR 0x0D then [backslash, CHR ''r'']
      else if c = CHR 0x09 then [backslash, CHR ''t'']
      else [backslash, CHR ''u'', CHR ''0'', CHR ''0'',
            hexdigit (byte c div 16), hexdigit (byte c mod 16)])"

function appendString :: "string \<Rightarrow> string" where
  "appendString [] = []"
| "appendString (c # cs) =
     (if byte c < 0x80 then
        (if htmlSafe c then c # appendString cs else escape_byte c @ appendString cs)
      else if utf8_size (c # cs) = 0 then
        backslash # ''ufffd'' @ appendString cs
      else if take 3 (c # cs) = [CHR 0xE2, CHR 0x80, CHR 0xA8] then
        backslash # ''u2028'' @ appendString (drop 2 cs)
      else if take 3 (c # cs) = [CHR 0xE2, CHR 0x80, CHR 0xA9] then
        backslash # ''u2029'' @ appendString (drop 2 cs)
      else take (utf8_size (c # cs)) (c # cs) @ appendString (drop (utf8_size (c # cs) - 1) cs))"
  by pat_completeness auto
termination
  by (relation "measure length") auto

definition quote :: "string \<Rightarrow> string" where
  "quote s = dquote # appendString s @ [dquote]"

text \<open>
  Marshal of the struct: the five fields in declaration order under their tags. It has
  no failing case for a struct of strings and integers; the result type keeps the error
  that the callers test for.
\<close>

definition Marshal :: "Asset \<Rightarrow> error + string" where
  \<open>Marshal a = Inr (''{"asset_id":'' @ quote (ID a)
     @ '',"color":'' @ quote (Color a)
     @ '',"size":'' @ FormatInt (sint (Size a))
     @ '',"owner":'' @ quote (Owner a)
     @ '',"appraisedValue":'' @ FormatInt (sint (AppraisedValue a))
     @ ''}'')\<close>

subsection \<open>Reading: the JSON syntax\<close>

text \<open>
  A parsed JSON value. A number keeps its literal text (the struct decoder converts it),
  a string is held unquoted, an object keeps its members in input order, duplicates
  included.
\<close>

datatype json =
    JNull
  | JBool bool
  | JNumber string
  | JString string
  | JArray "json list"
  | JObject "(string \<times> json) list"

definition prepend :: "string \<Rightarrow> (string \<times> string) option \<Rightarrow> (string \<times> string) option" where
  "prepend p r = (case r of None \<Rightarrow> None | Some (s, rest) \<Rightarrow> Some (p @ s, rest))"

definition hex4 :: "string \<Rightarrow> nat option" where
  "hex4 s = (case map hexval (take 4 s) of
       [Some a, Some b, Some c, Some d] \<Rightarrow> Some (((a * 16 + b) * 16 + c) * 16 + d)
     | _ \<Rightarrow> None)"

definition getu4 :: "string \<Rightarrow> nat option" where
  "getu4 s = (if take 2 s = [backslash, CHR ''u''] then hex4 (drop 2 s) else None)"

definition unescape :: "char \<Rightarrow> char option" where
  "unescape e =
     (if e = dquote \<or> e = backslash \<or> e = CHR ''/'' then Some e
      else if e = CHR ''b'' then Some (CHR 0x08)
      else if e = CHR ''f'' then Some (CHR 0x0C)
      else if e = CHR ''n'' then Some (CHR 0x0A)
      else if e = CHR ''r'' then Some (CHR 0x0D)
      else if e = CHR ''t'' then Some (CHR 0x09)
      else None)"

text \<open>
  A string literal, read from just after its opening quote: the unquoted bytes and the
  input after the closing quote. The scanner refuses a control byte and an unknown
  escape; \<^verbatim>\<open>unquote\<close> then decodes the escapes, joins a surrogate pair of
  \<^verbatim>\<open>\u\<close> escapes, and replaces a lone surrogate and every byte that starts no
  well-formed UTF-8 sequence by U+FFFD.
\<close>

function unquote :: "string \<Rightarrow> (string \<times> string) option" where
  "unquote [] = None"
| "unquote (c # cs) =
     (if c = dquote then Some ([], cs)
      else if c = backslash then
        (case cs of
           [] \<Rightarrow> None
         | e # es \<Rightarrow>
             if e = CHR ''u'' then
               (case hex4 es of
                  None \<Rightarrow> None
                | Some r \<Rightarrow>
                    if 0xD800 \<le> r \<and> r < 0xE000 then
                      (case getu4 (drop 4 es) of
                         None \<Rightarrow> prepend replacement (unquote (drop 4 es))
                       | Some r2 \<Rightarrow>
                           if r < 0xDC00 \<and> 0xDC00 \<le> r2 \<and> r2 < 0xE000 then
                             prepend (EncodeRune (0x10000 + (r - 0xD800) * 1024 + (r2 - 0xDC00)))
                               (unquote (drop 10 es))
                           else prepend replacement (unquote (drop 4 es)))
                    else prepend (EncodeRune r) (unquote (drop 4 es)))
             else
               (case unescape e of
                  None \<Rightarrow> None
                | Some b \<Rightarrow> prepend [b] (unquote es)))
      else if byte c < 0x20 then None
      else if byte c < 0x80 then prepend [c] (unquote cs)
      else if utf8_size (c # cs) = 0 then prepend replacement (unquote cs)
      else prepend (take (utf8_size (c # cs)) (c # cs))
             (unquote (drop (utf8_size (c # cs) - 1) cs)))"
  by pat_completeness auto
termination
  by (relation "measure length") auto

text \<open>
  A number literal: an optional minus, \<^verbatim>\<open>0\<close> or a digit \<^verbatim>\<open>1-9\<close> and more digits, an
  optional fraction, an optional exponent. The literal and the input after it.
\<close>

definition scan_exp :: "string \<Rightarrow> string \<Rightarrow> (string \<times> string) option" where
  "scan_exp lit s = (case s of
       [] \<Rightarrow> Some (lit, [])
     | e # r \<Rightarrow>
         if e = CHR ''e'' \<or> e = CHR ''E'' then
           (let sg = (case r of [] \<Rightarrow> [] | x # _ \<Rightarrow> if x = CHR ''+'' \<or> x = CHR ''-'' then [x] else []);
                r1 = drop (length sg) r;
                ds = takeWhile isDigit r1
            in if ds = [] then None else Some (lit @ e # sg @ ds, dropWhile isDigit r1))
         else Some (lit, s))"

definition scan_frac :: "string \<Rightarrow> string \<Rightarrow> (string \<times> string) option" where
  "scan_frac lit s = (case s of
       [] \<Rightarrow> Some (lit, [])
     | d # r \<Rightarrow>
         if d = CHR ''.'' then
           (let ds = takeWhile isDigit r
            in if ds = [] then None else scan_exp (lit @ d # ds) (dropWhile isDigit r))
         else scan_exp lit s)"

definition scan_int :: "string \<Rightarrow> string \<Rightarrow> (string \<times> string) option" where
  "scan_int sg s = (case s of
       [] \<Rightarrow> None
     | d # r \<Rightarrow>
         if d = CHR ''0'' then scan_frac (sg @ [d]) r
         else if isDigit d then scan_frac (sg @ d # takeWhile isDigit r) (dropWhile isDigit r)
         else None)"

definition scan_number :: "string \<Rightarrow> (string \<times> string) option" where
  "scan_number s = (case s of
       [] \<Rightarrow> None
     | c # r \<Rightarrow> if c = CHR ''-'' then scan_int [c] r else scan_int [] s)"

definition skip_ws :: "string \<Rightarrow> string" where
  "skip_ws s = dropWhile isSpace s"

definition scan_literal :: "string \<Rightarrow> (json \<times> string) option" where
  "scan_literal s =
     (if take 4 s = ''true'' then Some (JBool True, drop 4 s)
      else if take 5 s = ''false'' then Some (JBool False, drop 5 s)
      else if take 4 s = ''null'' then Some (JNull, drop 4 s)
      else None)"

text \<open>
  The value grammar, by recursive descent. The first argument is fuel, spent by every
  call; the second is the nesting depth, which the scanner limits to 10000 open arrays
  and objects. \<^verbatim>\<open>parse_elements\<close> reads an array from its first element,
  \<^verbatim>\<open>parse_members\<close> an object from its first key.
\<close>

definition maxNestingDepth :: nat where
  "maxNestingDepth = 10000"

fun parse_value :: "nat \<Rightarrow> nat \<Rightarrow> string \<Rightarrow> (json \<times> string) option"
  and parse_elements :: "nat \<Rightarrow> nat \<Rightarrow> string \<Rightarrow> (json list \<times> string) option"
  and parse_members :: "nat \<Rightarrow> nat \<Rightarrow> string \<Rightarrow> ((string \<times> json) list \<times> string) option"
where
  "parse_value 0 d s = None"
| "parse_value (Suc n) d s =
     (case skip_ws s of
        [] \<Rightarrow> None
      | c # cs \<Rightarrow>
          if c = CHR ''{'' then
            (if maxNestingDepth \<le> d then None
             else case skip_ws cs of
                 [] \<Rightarrow> None
               | x # r \<Rightarrow>
                   if x = CHR ''}'' then Some (JObject [], r)
                   else (case parse_members n (Suc d) (x # r) of
                           None \<Rightarrow> None
                         | Some (ms, r') \<Rightarrow> Some (JObject ms, r')))
          else if c = CHR ''['' then
            (if maxNestingDepth \<le> d then None
             else case skip_ws cs of
                 [] \<Rightarrow> None
               | x # r \<Rightarrow>
                   if x = CHR '']'' then Some (JArray [], r)
                   else (case parse_elements n (Suc d) (x # r) of
                           None \<Rightarrow> None
                         | Some (vs, r') \<Rightarrow> Some (JArray vs, r')))
          else if c = dquote then
            (case unquote cs of
               None \<Rightarrow> None
             | Some (str, r) \<Rightarrow> Some (JString str, r))
          else if c = CHR ''-'' \<or> isDigit c then
            (case scan_number (c # cs) of
               None \<Rightarrow> None
             | Some (lit, r) \<Rightarrow> Some (JNumber lit, r))
          else scan_literal (c # cs))"
| "parse_elements 0 d s = None"
| "parse_elements (Suc n) d s =
     (case parse_value n d s of
        None \<Rightarrow> None
      | Some (v, r) \<Rightarrow>
          (case skip_ws r of
             [] \<Rightarrow> None
           | x # r' \<Rightarrow>
               if x = CHR '','' then
                 (case parse_elements n d r' of
                    None \<Rightarrow> None
                  | Some (vs, r'') \<Rightarrow> Some (v # vs, r''))
               else if x = CHR '']'' then Some ([v], r')
               else None))"
| "parse_members 0 d s = None"
| "parse_members (Suc n) d s =
     (case skip_ws s of
        [] \<Rightarrow> None
      | q # cs \<Rightarrow>
          if q \<noteq> dquote then None
          else (case unquote cs of
              None \<Rightarrow> None
            | Some (k, r) \<Rightarrow>
                (case skip_ws r of
                   [] \<Rightarrow> None
                 | colon # r1 \<Rightarrow>
                     if colon \<noteq> CHR '':'' then None
                     else (case parse_value n d r1 of
                         None \<Rightarrow> None
                       | Some (v, r2) \<Rightarrow>
                           (case skip_ws r2 of
                              [] \<Rightarrow> None
                            | x # r3 \<Rightarrow>
                                if x = CHR '','' then
                                  (case parse_members n d r3 of
                                     None \<Rightarrow> None
                                   | Some (ms, r4) \<Rightarrow> Some ((k, v) # ms, r4))
                                else if x = CHR ''}'' then Some ([(k, v)], r3)
                                else None)))))"

text \<open>
  The whole input is one value between optional white space. Every call of the parser
  consumes input, so fuel of twice the input's length and two never runs out.
\<close>

definition parse_json :: "string \<Rightarrow> json option" where
  "parse_json s = (case parse_value (2 * length s + 2) 0 s of
       None \<Rightarrow> None
     | Some (v, r) \<Rightarrow> if skip_ws r = [] then Some v else None)"

subsection \<open>Reading: \<^verbatim>\<open>json.Unmarshal\<close> into the struct\<close>

text \<open>
  \<^verbatim>\<open>strconv.ParseInt(s, 10, 64)\<close>: an optional sign, then decimal digits only, and a
  value that fits 64 bits. A JSON number with a fraction or an exponent is refused.
\<close>

definition digits_val :: "string \<Rightarrow> nat" where
  "digits_val ds = foldl (\<lambda>a c. 10 * a + (byte c - 48)) 0 ds"

definition ParseInt :: "string \<Rightarrow> int option" where
  "ParseInt s =
     (let neg = (take 1 s = ''-'');
          ds = (if take 1 s = ''-'' \<or> take 1 s = ''+'' then drop 1 s else s)
      in if ds = [] \<or> \<not> list_all isDigit ds then None
         else let v = (if neg then - int (digits_val ds) else int (digits_val ds))
              in if - (2 ^ 63) \<le> v \<and> v < 2 ^ 63 then Some v else None)"

text \<open>
  An object key selects the field whose tag it equals under case folding. The folding
  maps \<^verbatim>\<open>a-z\<close> to \<^verbatim>\<open>A-Z\<close>, and the two letters outside ASCII that fold into ASCII,
  U+017F to \<^verbatim>\<open>S\<close> and U+212A to \<^verbatim>\<open>K\<close>; the other bytes are kept (Go folds the other
  letters outside ASCII among themselves, which no tag of this struct can equal).
\<close>

datatype field = F_asset_id | F_color | F_size | F_owner | F_appraisedValue

function foldName :: "string \<Rightarrow> string" where
  "foldName [] = []"
| "foldName (c # cs) =
     (if 97 \<le> byte c \<and> byte c \<le> 122 then char_of (byte c - 32) # foldName cs
      else if take 2 (c # cs) = [CHR 0xC5, CHR 0xBF] then CHR ''S'' # foldName (drop 1 cs)
      else if take 3 (c # cs) = [CHR 0xE2, CHR 0x84, CHR 0xAA] then CHR ''K'' # foldName (drop 2 cs)
      else c # foldName cs)"
  by pat_completeness auto
termination
  by (relation "measure length") auto

definition field_of :: "string \<Rightarrow> field option" where
  "field_of key = map_of
     [(''ASSET_ID'', F_asset_id), (''COLOR'', F_color), (''SIZE'', F_size),
      (''OWNER'', F_owner), (''APPRAISEDVALUE'', F_appraisedValue)] (foldName key)"

text \<open>
  Storing one member's value into its field. \<^verbatim>\<open>null\<close> leaves the field as it is; a
  string field takes a JSON string, an integer field a JSON number that ParseInt
  accepts; anything else is an \<^verbatim>\<open>UnmarshalTypeError\<close> (\<^const>\<open>None\<close>).
\<close>

definition store_string :: "field \<Rightarrow> string \<Rightarrow> Asset \<Rightarrow> Asset option" where
  "store_string f s a = (case f of
       F_asset_id \<Rightarrow> Some (a\<lparr>ID := s\<rparr>)
     | F_color \<Rightarrow> Some (a\<lparr>Color := s\<rparr>)
     | F_owner \<Rightarrow> Some (a\<lparr>Owner := s\<rparr>)
     | _ \<Rightarrow> None)"

definition store_number :: "field \<Rightarrow> string \<Rightarrow> Asset \<Rightarrow> Asset option" where
  "store_number f lit a = (case f of
       F_size \<Rightarrow> (case ParseInt lit of None \<Rightarrow> None | Some i \<Rightarrow> Some (a\<lparr>Size := word_of_int i\<rparr>))
     | F_appraisedValue \<Rightarrow>
         (case ParseInt lit of None \<Rightarrow> None | Some i \<Rightarrow> Some (a\<lparr>AppraisedValue := word_of_int i\<rparr>))
     | _ \<Rightarrow> None)"

definition store_member :: "field \<Rightarrow> json \<Rightarrow> Asset \<Rightarrow> Asset option" where
  "store_member f v a = (case v of
       JNull \<Rightarrow> Some a
     | JString s \<Rightarrow> store_string f s a
     | JNumber lit \<Rightarrow> store_number f lit a
     | _ \<Rightarrow> None)"

text \<open>
  The members of the top-level object in input order: a later member overwrites an
  earlier one of the same field, a key that selects no field is skipped with its value.
  Go decodes the remaining members after a type error and returns the first error; the
  callers drop the struct then, so the model stops at the first.
\<close>

fun store_members :: "(string \<times> json) list \<Rightarrow> Asset \<Rightarrow> Asset option" where
  "store_members [] a = Some a"
| "store_members ((k, v) # ms) a =
     (case field_of k of
        None \<Rightarrow> store_members ms a
      | Some f \<Rightarrow>
          (case store_member f v a of
             None \<Rightarrow> None
           | Some a' \<Rightarrow> store_members ms a'))"

text \<open>
  Unmarshal into a fresh struct, as every call of the contract does
  (\<^verbatim>\<open>var x Asset; json.Unmarshal(data, &x)\<close>). Input that is not JSON is a
  \<^verbatim>\<open>SyntaxError\<close>; a top-level \<^verbatim>\<open>null\<close> leaves the zero value; a top-level array,
  string, number or boolean is an \<^verbatim>\<open>UnmarshalTypeError\<close>.
\<close>

definition Unmarshal :: "string \<Rightarrow> error + Asset" where
  "Unmarshal data = (case parse_json data of
       None \<Rightarrow> Inl DecodeError
     | Some JNull \<Rightarrow> Inr zero_Asset
     | Some (JObject ms) \<Rightarrow>
         (case store_members ms zero_Asset of None \<Rightarrow> Inl DecodeError | Some a \<Rightarrow> Inr a)
     | Some _ \<Rightarrow> Inl DecodeError)"

section \<open>The world state\<close>

text \<open>
  The contract reaches the ledger through the stub of the transaction context, which is
  not part of the contract. The stub is modelled by its contract: a key-value store
  held in key order (bytewise), where a read of a missing key yields nothing, a write
  overwrites, and a range scan with empty bounds yields every entry in key order. Each
  call of the stub may fail: \<^verbatim>\<open>faults\<close> says, call by call, which of the coming calls
  do (none once it is used up). \<^verbatim>\<open>trace\<close> records the calls made.
\<close>

datatype stub_call =
    CallGetState string
  | CallPutState string string
  | CallDelState string
  | CallGetStateByRange
  | CallNext
  | CallClose

record ledger =
  world :: "(string \<times> string) list"
  faults :: "bool list"
  trace :: "stub_call list"

definition called :: "stub_call \<Rightarrow> ledger \<Rightarrow> bool \<times> ledger" where
  "called c l = (case faults l of
       [] \<Rightarrow> (False, l\<lparr>trace := trace l @ [c]\<rparr>)
     | b # bs \<Rightarrow> (b, l\<lparr>faults := bs, trace := trace l @ [c]\<rparr>))"

fun insert_entry :: "string \<Rightarrow> string \<Rightarrow> (string \<times> string) list \<Rightarrow> (string \<times> string) list" where
  "insert_entry k v [] = [(k, v)]"
| "insert_entry k v ((k', v') # w) =
     (if k < k' then (k, v) # (k', v') # w else (k', v') # insert_entry k v w)"

definition delete_entry :: "string \<Rightarrow> (string \<times> string) list \<Rightarrow> (string \<times> string) list" where
  "delete_entry k w = filter (\<lambda>e. fst e \<noteq> k) w"

definition GetState :: "string \<Rightarrow> ledger \<Rightarrow> (error + string option) \<times> ledger" where
  "GetState k l = (case called (CallGetState k) l of
       (True, l') \<Rightarrow> (Inl StoreError, l')
     | (False, l') \<Rightarrow> (Inr (map_of (world l') k), l'))"

definition PutState :: "string \<Rightarrow> string \<Rightarrow> ledger \<Rightarrow> (error + unit) \<times> ledger" where
  "PutState k v l = (case called (CallPutState k v) l of
       (True, l') \<Rightarrow> (Inl StoreError, l')
     | (False, l') \<Rightarrow> (Inr (), l'\<lparr>world := insert_entry k v (delete_entry k (world l'))\<rparr>))"

definition DelState :: "string \<Rightarrow> ledger \<Rightarrow> (error + unit) \<times> ledger" where
  "DelState k l = (case called (CallDelState k) l of
       (True, l') \<Rightarrow> (Inl StoreError, l')
     | (False, l') \<Rightarrow> (Inr (), l'\<lparr>world := delete_entry k (world l')\<rparr>))"

definition GetStateByRange :: "ledger \<Rightarrow> (error + (string \<times> string) list) \<times> ledger" where
  "GetStateByRange l = (case called CallGetStateByRange l of
       (True, l') \<Rightarrow> (Inl StoreError, l')
     | (False, l') \<Rightarrow> (Inr (world l'), l'))"

definition Next :: "ledger \<Rightarrow> (error + unit) \<times> ledger" where
  "Next l = (case called CallNext l of
       (True, l') \<Rightarrow> (Inl StoreError, l')
     | (False, l') \<Rightarrow> (Inr (), l'))"

definition Close :: "ledger \<Rightarrow> ledger" where
  "Close l = l\<lparr>trace := trace l @ [CallClose]\<rparr>"

section \<open>The contract\<close>

text \<open>
  Each transaction takes the ledger (the stub of its context) and returns its result or
  error with the ledger after it. The branches follow the source statement by
  statement.
\<close>

definition AssetExists :: "ledger \<Rightarrow> string \<Rightarrow> (error + bool) \<times> ledger" where
  "AssetExists ctx id' = (case GetState id' ctx of
       (Inl err, ctx1) \<Rightarrow> (Inl StoreError, ctx1)
     | (Inr assetJSON, ctx1) \<Rightarrow> (Inr (assetJSON \<noteq> None), ctx1))"

definition seed_assets :: "Asset list" where
  "seed_assets =
    [\<lparr>ID = ''asset1'', Color = ''blue'', Size = 5, Owner = ''Tomoko'', AppraisedValue = 300\<rparr>,
     \<lparr>ID = ''asset2'', Color = ''red'', Size = 5, Owner = ''Brad'', AppraisedValue = 400\<rparr>,
     \<lparr>ID = ''asset3'', Color = ''green'', Size = 10, Owner = ''Jin Soo'', AppraisedValue = 500\<rparr>,
     \<lparr>ID = ''asset4'', Color = ''yellow'', Size = 10, Owner = ''Max'', AppraisedValue = 600\<rparr>,
     \<lparr>ID = ''asset5'', Color = ''black'', Size = 15, Owner = ''Adriana'', AppraisedValue = 700\<rparr>,
     \<lparr>ID = ''asset6'', Color = ''white'', Size = 15, Owner = ''Michel'', AppraisedValue = 800\<rparr>]"

fun put_assets :: "Asset list \<Rightarrow> ledger \<Rightarrow> (error + unit) \<times> ledger" where
  "put_assets [] ctx = (Inr (), ctx)"
| "put_assets (asset # assets) ctx =
     (case Marshal asset of
        Inl err \<Rightarrow> (Inl err, ctx)
      | Inr assetJSON \<Rightarrow>
          (case PutState (ID asset) assetJSON ctx of
             (Inl err, ctx1) \<Rightarrow> (Inl StoreError, ctx1)
           | (Inr u, ctx1) \<Rightarrow> put_assets assets ctx1))"

definition InitLedger :: "ledger \<Rightarrow> (error + unit) \<times> ledger" where
  "InitLedger ctx = put_assets seed_assets ctx"

definition CreateAsset :: "ledger \<Rightarrow> string \<Rightarrow> (error + string) \<times> ledger" where
  "CreateAsset ctx rawAssetEnrollRequest =
     (case Unmarshal rawAssetEnrollRequest of
        Inl err \<Rightarrow> (Inl err, ctx)
      | Inr assetEnrollRequest \<Rightarrow>
          (case AssetExists ctx (ID assetEnrollRequest) of
             (Inl err, ctx1) \<Rightarrow> (Inl err, ctx1)
           | (Inr exists, ctx1) \<Rightarrow>
               if exists then (Inl (AlreadyExists (ID assetEnrollRequest)), ctx1)
               else
                 (case Marshal assetEnrollRequest of
                    Inl err \<Rightarrow> (Inl MarshalError, ctx1)
                  | Inr result \<Rightarrow>
                      (case PutState (ID assetEnrollRequest) result ctx1 of
                         (Inl err, ctx2) \<Rightarrow> (Inl err, ctx2)
                       | (Inr u, ctx2) \<Rightarrow> (Inr ''CreateAsset OK'', ctx2)))))"

definition ReadAsset :: "ledger \<Rightarrow> string \<Rightarrow> (error + Asset) \<times> ledger" where
  "ReadAsset ctx rawAssetReadRequest =
     (case Unmarshal rawAssetReadRequest of
        Inl err \<Rightarrow> (Inl err, ctx)
      | Inr assetReadRequest \<Rightarrow>
          (case GetState (ID assetReadRequest) ctx of
             (Inl err, ctx1) \<Rightarrow> (Inl StoreError, ctx1)
           | (Inr None, ctx1) \<Rightarrow> (Inl (NotFound (ID assetReadRequest)), ctx1)
           | (Inr (Some assetJSON), ctx1) \<Rightarrow>
               (case Unmarshal assetJSON of
                  Inl err \<Rightarrow> (Inl err, ctx1)
                | Inr asset \<Rightarrow> (Inr asset, ctx1))))"

definition UpdateAsset :: "ledger \<Rightarrow> string \<Rightarrow> (error + string) \<times> ledger" where
  "UpdateAsset ctx rawAssetUpdateRequest =
     (case Unmarshal rawAssetUpdateRequest of
        Inl err \<Rightarrow> (Inl err, ctx)
      | Inr assetUpdateRequest \<Rightarrow>
          (case AssetExists ctx (ID assetUpdateRequest) of
             (Inl err, ctx1) \<Rightarrow> (Inl err, ctx1)
           | (Inr exists, ctx1) \<Rightarrow>
               if \<not> exists then (Inl (NotFound (ID assetUpdateRequest)), ctx1)
               else
                 (case Marshal assetUpdateRequest of
                    Inl err \<Rightarrow> (Inl MarshalError, ctx1)
                  | Inr result \<Rightarrow>
                      (case PutState (ID assetUpdateRequest) result ctx1 of
                         (Inl err, ctx2) \<Rightarrow> (Inl err, ctx2)
                       | (Inr u, ctx2) \<Rightarrow> (Inr ''UpdateAsset OK'', ctx2)))))"

definition DeleteAsset :: "ledger \<Rightarrow> string \<Rightarrow> (error + string) \<times> ledger" where
  "DeleteAsset ctx rawAssetDeleteRequest =
     (case Unmarshal rawAssetDeleteRequest of
        Inl err \<Rightarrow> (Inl err, ctx)
      | Inr assetDeleteRequest \<Rightarrow>
          (case AssetExists ctx (ID assetDeleteRequest) of
             (Inl err, ctx1) \<Rightarrow> (Inl err, ctx1)
           | (Inr exists, ctx1) \<Rightarrow>
               if \<not> exists then (Inl (NotFound (ID assetDeleteRequest)), ctx1)
               else
                 (case DelState (ID assetDeleteRequest) ctx1 of
                    (Inl err, ctx2) \<Rightarrow> (Inl err, ctx2)
                  | (Inr u, ctx2) \<Rightarrow> (Inr ''CreateAsset OK'', ctx2))))"

definition TransferAsset :: "ledger \<Rightarrow> string \<Rightarrow> (error + string) \<times> ledger" where
  "TransferAsset ctx rawAssetTransferRequest =
     (case Unmarshal rawAssetTransferRequest of
        Inl err \<Rightarrow> (Inl err, ctx)
      | Inr assetTransferRequest \<Rightarrow>
          (case AssetExists ctx (ID assetTransferRequest) of
             (Inl err, ctx1) \<Rightarrow> (Inl err, ctx1)
           | (Inr exists, ctx1) \<Rightarrow>
               if \<not> exists then (Inl (NotFound (ID assetTransferRequest)), ctx1)
               else
                 (case ReadAsset ctx1 rawAssetTransferRequest of
                    (Inl err, ctx2) \<Rightarrow> (Inl err, ctx2)
                  | (Inr asset, ctx2) \<Rightarrow>
                      (case Marshal (asset\<lparr>Owner := Owner assetTransferRequest\<rparr>) of
                         Inl err \<Rightarrow> (Inl MarshalError, ctx2)
                       | Inr result \<Rightarrow>
                           (case PutState (ID assetTransferRequest) result ctx2 of
                              (Inl err, ctx3) \<Rightarrow> (Inl err, ctx3)
                            | (Inr u, ctx3) \<Rightarrow> (Inr ''TransferAsset OK'', ctx3))))))"

text \<open>
  The loop of GetAllAssets over the entries of the range scan: \<^verbatim>\<open>Next\<close>, then
  Unmarshal of the value into a fresh struct, appended to the result.
\<close>

fun scan_assets :: "(string \<times> string) list \<Rightarrow> Asset list \<Rightarrow> ledger \<Rightarrow> (error + Asset list) \<times> ledger" where
  "scan_assets [] assets ctx = (Inr assets, ctx)"
| "scan_assets (queryResponse # rest) assets ctx =
     (case Next ctx of
        (Inl err, ctx1) \<Rightarrow> (Inl err, ctx1)
      | (Inr u, ctx1) \<Rightarrow>
          (case Unmarshal (snd queryResponse) of
             Inl err \<Rightarrow> (Inl err, ctx1)
           | Inr asset \<Rightarrow> scan_assets rest (assets @ [asset]) ctx1))"

definition GetAllAssets :: "ledger \<Rightarrow> (error + Asset list) \<times> ledger" where
  "GetAllAssets ctx =
     (case GetStateByRange ctx of
        (Inl err, ctx1) \<Rightarrow> (Inl err, ctx1)
      | (Inr resultsIterator, ctx1) \<Rightarrow>
          (case scan_assets resultsIterator [] ctx1 of
             (res, ctx2) \<Rightarrow> (res, Close ctx2)))"

text \<open>A number inside the object that Marshal writes is followed by a comma or the closing brace.\<close>

definition ends_value :: "char \<Rightarrow> bool" where
  "ends_value c = (c = CHR '','' \<or> c = CHR ''}'')"

text \<open>
  Validity of what the codec handles: the unquoted string of a literal, a string value
  among the members of an object, and the three strings of an Asset are valid UTF-8.
\<close>

definition yields_valid :: "(string \<times> string) option \<Rightarrow> bool" where
  "yields_valid x = (case x of None \<Rightarrow> True | Some (t, rest) \<Rightarrow> utf8_valid t)"

definition member_valid :: "json \<Rightarrow> bool" where
  "member_valid v = (case v of JString t \<Rightarrow> utf8_valid t | _ \<Rightarrow> True)"

definition valid_Asset :: "Asset \<Rightarrow> bool" where
  "valid_Asset a = (utf8_valid (ID a) \<and> utf8_valid (Color a) \<and> utf8_valid (Owner a))"

text \<open>
  Notions for stating the properties of the contract: whether the next call of the stub
  fails, the ledger after a call, a stub that never fails, the calls an operation added
  to the trace, and the calls that write.
\<close>

definition fails_next :: "ledger \<Rightarrow> bool" where
  "fails_next l = (case faults l of [] \<Rightarrow> False | b # bs \<Rightarrow> b)"

definition advance :: "stub_call \<Rightarrow> ledger \<Rightarrow> ledger" where
  "advance c l = l\<lparr>faults := tl (faults l), trace := trace l @ [c]\<rparr>"

definition reliable :: "ledger \<Rightarrow> bool" where
  "reliable l = list_all (\<lambda>b. \<not> b) (faults l)"

definition new_calls :: "ledger \<Rightarrow> ledger \<Rightarrow> stub_call list" where
  "new_calls l l' = drop (length (trace l)) (trace l')"

definition is_write :: "stub_call \<Rightarrow> bool" where
  "is_write c = (case c of CallPutState k v \<Rightarrow> True | CallDelState k \<Rightarrow> True | _ \<Rightarrow> False)"

text \<open>The first seed asset as a request, a transfer request for it, and a ledger that holds it.\<close>

definition asset1_json :: string where
  \<open>asset1_json = ''{"asset_id":"asset1","color":"blue","size":5,"owner":"Tomoko","appraisedValue":300}''\<close>

definition transfer_request :: string where
  \<open>transfer_request = ''{"asset_id":"asset1","owner":"Bob"}''\<close>

definition asset1_ledger :: ledger where
  "asset1_ledger = \<lparr>world = [(''asset1'', asset1_json)], faults = [], trace = []\<rparr>"

text \<open>
  An operation touched the store when the store differs or a writing call was made. The
  payloads that Unmarshal refuses: a field is mistyped when a member names it and holds a
  value of another type than the field's.
\<close>

definition touched :: "ledger \<Rightarrow> ledger \<Rightarrow> bool" where
  "touched l l' = (world l' \<noteq> world l \<or> list_ex is_write (new_calls l l'))"

definition empty_ledger :: ledger where
  "empty_ledger = \<lparr>world = [], faults = [], trace = []\<rparr>"

definition well_typed :: "field \<Rightarrow> json \<Rightarrow> bool" where
  "well_typed f v = (case v of
       JNull \<Rightarrow> True
     | JString s \<Rightarrow> f = F_asset_id \<or> f = F_color \<or> f = F_owner
     | JNumber lit \<Rightarrow> (f = F_size \<or> f = F_appraisedValue) \<and> ParseInt lit \<noteq> None
     | _ \<Rightarrow> False)"

definition mistyped_member :: "string \<times> json \<Rightarrow> bool" where
  "mistyped_member m = (case field_of (fst m) of None \<Rightarrow> False | Some f \<Rightarrow> \<not> well_typed f (snd m))"

definition rejected :: "string \<Rightarrow> bool" where
  "rejected data = (case parse_json data of
       None \<Rightarrow> True
     | Some JNull \<Rightarrow> False
     | Some (JObject ms) \<Rightarrow> list_ex mistyped_member ms
     | Some _ \<Rightarrow> True)"

definition mistyped_request :: string where
  \<open>mistyped_request = ''{"asset_id":"asset1","size":"5"}''\<close>

section \<open>Properties of the codec\<close>

subsection \<open>Integers: printing and parsing\<close>

lemma byte_char_of: "n < 256 \<Longrightarrow> byte (char_of n) = n"
  by simp

lemma digits_val_snoc: "digits_val (ds @ [c]) = 10 * digits_val ds + (byte c - 48)"
  by (simp add: digits_val_def)

lemma digits_of_nonempty: "digits_of n \<noteq> []"
  by (subst digits_of.simps) simp

lemma isDigit_char_of: "(n::nat) < 10 \<Longrightarrow> isDigit (char_of (48 + n))"
  by (simp add: isDigit_def)

lemma digits_of_all_digits: "list_all isDigit (digits_of n)"
proof (induction n rule: digits_of.induct)
  case (1 n)
  show ?case
  proof (cases "n < 10")
    case True
    then show ?thesis by (subst digits_of.simps) (simp add: isDigit_char_of)
  next
    case False
    have "n mod 10 < 10" by simp
    with False 1 show ?thesis
      by (subst digits_of.simps) (simp add: isDigit_char_of del: of_char_of)
  qed
qed

lemma digits_val_digits_of: "digits_val (digits_of n) = n"
proof (induction n rule: digits_of.induct)
  case (1 n)
  show ?case
  proof (cases "n < 10")
    case True
    then show ?thesis by (subst digits_of.simps) (simp add: digits_val_def)
  next
    case False
    have m: "n mod 10 < 10" by simp
    then have "byte (char_of (48 + n mod 10)) = 48 + n mod 10" by simp
    with False 1 show ?thesis
      by (subst digits_of.simps) (simp add: digits_val_snoc del: of_char_of)
  qed
qed

lemma hd_digits_of: "0 < n \<Longrightarrow> hd (digits_of n) \<noteq> CHR ''0''"
proof (induction n rule: digits_of.induct)
  case (1 n)
  show ?case
  proof (cases "n < 10")
    case True
    with 1(2) have "byte (char_of (48 + n)) \<noteq> byte (CHR ''0'')" by simp
    then have "char_of (48 + n) \<noteq> CHR ''0''" by metis
    with True show ?thesis by (subst digits_of.simps) simp
  next
    case False
    then have "0 < n div 10" by simp
    with False 1 show ?thesis
      by (subst digits_of.simps) (simp add: digits_of_nonempty)
  qed
qed

lemma digits_of_cases:
  "digits_of n = ''0'' \<or> (\<exists>d ds. digits_of n = d # ds \<and> d \<noteq> CHR ''0'' \<and> isDigit d \<and> list_all isDigit ds)"
proof (cases "n = 0")
  case True
  have "digits_of 0 = [char_of (48 + (0::nat))]" by (subst digits_of.simps) simp
  also have "\<dots> = ''0''" by (simp add: char_of_eq_iff)
  finally show ?thesis using True by simp
next
  case False
  then have "hd (digits_of n) \<noteq> CHR ''0''" by (simp add: hd_digits_of)
  moreover have "list_all isDigit (digits_of n)" by (rule digits_of_all_digits)
  ultimately show ?thesis using digits_of_nonempty [of n]
    by (cases "digits_of n") auto
qed

lemma takeWhile_digits:
  "list_all isDigit ds \<Longrightarrow> \<not> isDigit c \<Longrightarrow> takeWhile isDigit (ds @ c # r) = ds"
  by (induction ds) auto

lemma dropWhile_digits:
  "list_all isDigit ds \<Longrightarrow> \<not> isDigit c \<Longrightarrow> dropWhile isDigit (ds @ c # r) = c # r"
  by (induction ds) auto

lemma ends_value_facts:
  "ends_value c \<Longrightarrow> \<not> isDigit c \<and> c \<noteq> CHR ''.'' \<and> c \<noteq> CHR ''e'' \<and> c \<noteq> CHR ''E'' \<and> \<not> isSpace c"
  by (auto simp: ends_value_def isDigit_def isSpace_def)

lemma scan_exp_end: "ends_value c \<Longrightarrow> scan_exp lit (c # r) = Some (lit, c # r)"
  by (simp add: scan_exp_def ends_value_facts)

lemma scan_frac_end: "ends_value c \<Longrightarrow> scan_frac lit (c # r) = Some (lit, c # r)"
  by (simp add: scan_frac_def scan_exp_end ends_value_facts)

lemma scan_int_digits_of:
  assumes "ends_value c"
  shows "scan_int sg (digits_of n @ c # r) = Some (sg @ digits_of n, c # r)"
proof -
  from digits_of_cases [of n] show ?thesis
  proof
    assume "digits_of n = ''0''"
    then show ?thesis using assms by (simp add: scan_int_def scan_frac_end)
  next
    assume "\<exists>d ds. digits_of n = d # ds \<and> d \<noteq> CHR ''0'' \<and> isDigit d \<and> list_all isDigit ds"
    then obtain d ds where d: "digits_of n = d # ds" "d \<noteq> CHR ''0''" "isDigit d" "list_all isDigit ds"
      by blast
    from assms have nd: "\<not> isDigit c" by (simp add: ends_value_facts)
    show ?thesis using d assms
      by (simp add: scan_int_def takeWhile_digits [OF d(4) nd] dropWhile_digits [OF d(4) nd] scan_frac_end)
  qed
qed

lemma digits_of_no_minus: "hd (digits_of n) \<noteq> CHR ''-''"
  using digits_of_all_digits [of n] digits_of_nonempty [of n]
  by (cases "digits_of n") (auto simp: isDigit_def)

lemma scan_number_FormatInt:
  assumes "ends_value c"
  shows "scan_number (FormatInt i @ c # r) = Some (FormatInt i, c # r)"
proof (cases "i < 0")
  case True
  then show ?thesis using scan_int_digits_of [OF assms, of "''-''"]
    by (simp add: scan_number_def FormatInt_def)
next
  case False
  obtain d ds where d: "digits_of (nat i) = d # ds"
    using digits_of_nonempty [of "nat i"] by (cases "digits_of (nat i)") auto
  with digits_of_no_minus [of "nat i"] have "d \<noteq> CHR ''-''" by simp
  with False d show ?thesis using scan_int_digits_of [OF assms, of "[]" "nat i" r]
    by (simp add: scan_number_def FormatInt_def)
qed

lemma FormatInt_first:
  "\<exists>d ds. FormatInt i = d # ds \<and> (d = CHR ''-'' \<or> isDigit d)"
proof (cases "i < 0")
  case True
  then show ?thesis by (simp add: FormatInt_def)
next
  case False
  then show ?thesis using digits_of_all_digits [of "nat i"] digits_of_nonempty [of "nat i"]
    by (cases "digits_of (nat i)") (auto simp: FormatInt_def)
qed

lemma ParseInt_FormatInt:
  assumes "- (2 ^ 63) \<le> i" "i < 2 ^ 63"
  shows "ParseInt (FormatInt i) = Some i"
proof (cases "i < 0")
  case True
  then show ?thesis using assms digits_of_all_digits [of "nat (- i)"] digits_of_nonempty [of "nat (- i)"]
    by (simp add: ParseInt_def FormatInt_def digits_val_digits_of)
next
  case False
  obtain d ds where d: "digits_of (nat i) = d # ds"
    using digits_of_nonempty [of "nat i"] by (cases "digits_of (nat i)") auto
  have nm: "d \<noteq> CHR ''-''" using digits_of_no_minus [of "nat i"] d by simp
  have np: "d \<noteq> CHR ''+''" using digits_of_all_digits [of "nat i"] d by (auto simp: isDigit_def)
  have "digits_val (d # ds) = nat i" using digits_val_digits_of [of "nat i"] d by simp
  moreover have "list_all isDigit (d # ds)" using digits_of_all_digits [of "nat i"] d by simp
  ultimately show ?thesis using False assms d nm np
    by (simp add: ParseInt_def FormatInt_def)
qed

lemma ParseInt_FormatInt_sint:
  "ParseInt (FormatInt (sint (w :: 64 word))) = Some (sint w)"
proof -
  have "- (2 ^ 63) \<le> sint w" using sint_ge [of w] by simp
  moreover have "sint w < 2 ^ 63" using sint_lt [of w] by simp
  ultimately show ?thesis by (rule ParseInt_FormatInt)
qed

subsection \<open>UTF-8 sequences\<close>

lemma utf8_size_Nil [simp]: "utf8_size [] = 0"
  by (simp add: utf8_size_def)

lemma seq_len_cases: "seq_len c = 0 \<or> seq_len c = 1 \<or> seq_len c = 2 \<or> seq_len c = 3 \<or> seq_len c = 4"
  by (simp add: seq_len_def Let_def)

lemma seq_len_ascii: "seq_len c = 1 \<longleftrightarrow> byte c < 0x80"
  by (simp add: seq_len_def Let_def)

lemma utf8_size_ascii: "byte c < 0x80 \<Longrightarrow> utf8_size (c # cs) = 1"
  by (simp add: utf8_size_def seq_len_ascii [symmetric])

lemma utf8_size_pos_seq_len: "0 < utf8_size (c # cs) \<Longrightarrow> utf8_size (c # cs) = seq_len c"
  using seq_len_cases [of c] by (auto simp: utf8_size_def Let_def split: if_splits)

lemma utf8_size_tail: "0 < utf8_size (c # cs) \<Longrightarrow> utf8_size (c # cs) - 1 \<le> length cs"
  using seq_len_cases [of c] by (auto simp: utf8_size_def Let_def split: if_splits)

lemma utf8_size_prefix:
  assumes "0 < utf8_size (c # cs)" "utf8_size (c # cs) - 1 \<le> length p"
    and "take (utf8_size (c # cs) - 1) p = take (utf8_size (c # cs) - 1) cs"
  shows "utf8_size (c # p) = utf8_size (c # cs)"
proof -
  have n: "\<And>i. i < utf8_size (c # cs) - 1 \<Longrightarrow> p ! i = cs ! i"
    using assms(3) by (metis nth_take)
  from seq_len_cases [of c] assms(1,2) show ?thesis
    by (auto simp: utf8_size_def Let_def n split: if_splits)
qed

lemma utf8_size_append: "0 < utf8_size (c # cs) \<Longrightarrow> utf8_size (c # cs @ t) = utf8_size (c # cs)"
  using utf8_size_tail [of c cs] by (intro utf8_size_prefix) auto

lemma utf8_size_take_append:
  "0 < utf8_size (c # cs) \<Longrightarrow>
   utf8_size (c # take (utf8_size (c # cs) - 1) cs @ t) = utf8_size (c # cs)"
  using utf8_size_tail [of c cs] by (intro utf8_size_prefix) auto

lemma utf8_valid_append: "utf8_valid a \<Longrightarrow> utf8_valid b \<Longrightarrow> utf8_valid (a @ b)"
proof (induction a rule: utf8_valid.induct)
  case 1
  then show ?case by simp
next
  case (2 c cs)
  from 2(2) have pos: "0 < utf8_size (c # cs)" and tl: "utf8_valid (drop (utf8_size (c # cs) - 1) cs)"
    by simp_all
  have sz: "utf8_size (c # cs @ b) = utf8_size (c # cs)" using pos by (rule utf8_size_append)
  have "drop (utf8_size (c # cs) - 1) (cs @ b) = drop (utf8_size (c # cs) - 1) cs @ b"
    using utf8_size_tail [OF pos] by simp
  moreover have "utf8_valid (drop (utf8_size (c # cs) - 1) cs @ b)" using 2(1) tl 2(3) by simp
  ultimately show ?case using pos sz by simp
qed

lemma utf8_valid_seq:
  assumes "0 < utf8_size (c # cs)"
  shows "utf8_valid (take (utf8_size (c # cs)) (c # cs))"
proof -
  obtain m where m: "utf8_size (c # cs) = Suc m" using assms by (cases "utf8_size (c # cs)") auto
  have "utf8_size (c # take m cs @ []) = Suc m" using utf8_size_take_append [OF assms, of "[]"] m by simp
  then show ?thesis using m utf8_size_tail [OF assms] by simp
qed

lemma utf8_valid_ascii: "byte c < 0x80 \<Longrightarrow> utf8_valid [c]"
  by (simp add: utf8_size_ascii)

lemma utf8_size_replacement: "utf8_size (replacement @ t) = 3"
  by (simp add: replacement_def utf8_size_def seq_len_def accept_lo_def accept_hi_def is_cont_def)

lemma utf8_valid_replacement: "utf8_valid replacement"
  using utf8_size_replacement [of "[]"] by (simp add: replacement_def)

lemma x16: "(r::nat) < 0x10000 \<Longrightarrow> r div 4096 < 16"
  by (simp add: div_less_iff_less_mult)
lemma lo3: "(0x800::nat) \<le> r \<Longrightarrow> r div 4096 = 0 \<Longrightarrow> 32 \<le> r div 64 mod 64"
proof -
  assume a: "(0x800::nat) \<le> r" "r div 4096 = 0"
  then have "r < 4096" by (simp add: div_eq_0_iff)
  then have "r div 64 < 64" by (simp add: div_less_iff_less_mult)
  moreover have "32 \<le> r div 64" using a(1) by (simp add: less_eq_div_iff_mult_less_eq)
  ultimately show ?thesis by simp
qed
lemma hi3: "(r::nat) < 0xD800 \<Longrightarrow> r div 4096 = 13 \<Longrightarrow> r div 64 mod 64 < 32"
proof -
  assume a: "(r::nat) < 0xD800" "r div 4096 = 13"
  have "r = 4096 * (r div 4096) + r mod 4096" by simp
  then have r: "r = 53248 + r mod 4096" using a(2) by simp
  then have m: "r mod 4096 < 2048" using a(1) by linarith
  define q where "q = (r mod 4096) div 64"
  have "r div 64 = 832 + q" unfolding q_def by (subst r) simp
  moreover have "q < 32" using m by (simp add: q_def div_less_iff_less_mult)
  moreover have "(832 + q) mod 64 = q mod 64" using mod_mult_self3 [of 13 64 q] by simp
  ultimately show ?thesis by simp
qed
lemma x5: "(r::nat) \<le> 0x10FFFF \<Longrightarrow> r div 262144 < 5"
  by (simp add: div_less_iff_less_mult)
lemma lo4: "(0x10000::nat) \<le> r \<Longrightarrow> r div 262144 = 0 \<Longrightarrow> 16 \<le> r div 4096 mod 64"
proof -
  assume a: "(0x10000::nat) \<le> r" "r div 262144 = 0"
  then have "r < 262144" by (simp add: div_eq_0_iff)
  then have "r div 4096 < 64" by (simp add: div_less_iff_less_mult)
  moreover have "16 \<le> r div 4096" using a(1) by (simp add: less_eq_div_iff_mult_less_eq)
  ultimately show ?thesis by simp
qed
lemma hi4: "(r::nat) \<le> 0x10FFFF \<Longrightarrow> r div 262144 = 4 \<Longrightarrow> r div 4096 mod 64 < 16"
proof -
  assume a: "(r::nat) \<le> 0x10FFFF" "r div 262144 = 4"
  have "r = 262144 * (r div 262144) + r mod 262144" by simp
  then have r: "r = 1048576 + r mod 262144" using a(2) by simp
  then have m: "r mod 262144 < 65536" using a(1) by linarith
  define q where "q = (r mod 262144) div 4096"
  have "r div 4096 = 256 + q" unfolding q_def by (subst r) simp
  moreover have "q < 16" using m by (simp add: q_def div_less_iff_less_mult)
  moreover have "(256 + q) mod 64 = q mod 64" using mod_mult_self3 [of 4 64 q] by simp
  ultimately show ?thesis by simp
qed
lemma d2: "(0x80::nat) \<le> r \<Longrightarrow> r < 0x800 \<Longrightarrow> 2 \<le> r div 64 \<and> r div 64 < 32"
  by (simp add: div_less_iff_less_mult less_eq_div_iff_mult_less_eq)

lemma utf8_size_two:
  assumes "seq_len c0 = 2" "accept_lo c0 \<le> byte c1" "byte c1 \<le> accept_hi c0"
  shows "utf8_size (c0 # c1 # t) = 2"
  using assms by (simp add: utf8_size_def not_less [symmetric])

lemma utf8_size_three:
  assumes "seq_len c0 = 3" "accept_lo c0 \<le> byte c1" "byte c1 \<le> accept_hi c0" "is_cont c2"
  shows "utf8_size (c0 # c1 # c2 # t) = 3"
  using assms by (simp add: utf8_size_def not_less [symmetric])

lemma utf8_size_four:
  assumes "seq_len c0 = 4" "accept_lo c0 \<le> byte c1" "byte c1 \<le> accept_hi c0"
    "is_cont c2" "is_cont c3"
  shows "utf8_size (c0 # c1 # c2 # c3 # t) = 4"
  using assms by (simp add: utf8_size_def not_less [symmetric])

lemma enc2:
  assumes b: "0x80 \<le> r" "r < 0x800"
  shows "utf8_size (EncodeRune r @ t) = length (EncodeRune r)"
proof -
  define d where "d = r div 64"
  define f where "f = r mod 64"
  define c0 where "c0 = char_of (0xC0 + d)"
  define c1 where "c1 = char_of (0x80 + f)"
  have d: "2 \<le> d" "d < 32" using d2 [OF b] by (simp_all add: d_def)
  have f: "f < 64" by (simp add: f_def)
  have e: "EncodeRune r = [c0, c1]"
    using b by (simp add: EncodeRune_def d_def f_def c0_def c1_def)
  have b0: "byte c0 = 0xC0 + d" unfolding c0_def using d by (intro byte_char_of) simp
  have b1: "byte c1 = 0x80 + f" unfolding c1_def using f by (intro byte_char_of) simp
  have sl: "seq_len c0 = 2" using d by (simp add: seq_len_def b0)
  have al: "accept_lo c0 \<le> byte c1" using d by (simp add: accept_lo_def b0 b1)
  have ah: "byte c1 \<le> accept_hi c0" using d f by (simp add: accept_hi_def b0 b1)
  have "utf8_size (c0 # c1 # t) = 2" using sl al ah by (rule utf8_size_two)
  then show ?thesis by (simp add: e)
qed

lemma enc3:
  assumes d: "0x800 \<le> r" "r < 0x10000" "\<not> (0xD800 \<le> r \<and> r < 0xE000)"
  shows "utf8_size (EncodeRune r @ t) = length (EncodeRune r)"
proof -
  define x where "x = r div 4096"
  define y where "y = r div 64 mod 64"
  define z where "z = r mod 64"
  define c0 where "c0 = char_of (0xE0 + x)"
  define c1 where "c1 = char_of (0x80 + y)"
  define c2 where "c2 = char_of (0x80 + z)"
  have x: "x < 16" using x16 [OF d(2)] by (simp add: x_def)
  have y: "y < 64" by (simp add: y_def)
  have z: "z < 64" by (simp add: z_def)
  have lo: "x = 0 \<longrightarrow> 32 \<le> y" using lo3 [OF d(1)] by (simp add: x_def y_def)
  have "x = 13 \<Longrightarrow> r < 0xD800"
  proof -
    assume "x = 13"
    then have "r div 4096 < 14" by (simp add: x_def)
    then have "r < 0xE000" by (simp add: div_less_iff_less_mult)
    with d(3) show ?thesis by simp
  qed
  then have hi: "x = 13 \<longrightarrow> y < 32" using hi3 [of r] by (simp add: x_def y_def)
  have ns: "r < 0xD800 \<or> 0xE000 \<le> r" using d(3) by linarith
  have e: "EncodeRune r = [c0, c1, c2]"
    using d(1,2) ns by (auto simp: EncodeRune_def x_def y_def z_def c0_def c1_def c2_def)
  have b0: "byte c0 = 0xE0 + x" unfolding c0_def using x by (intro byte_char_of) simp
  have b1: "byte c1 = 0x80 + y" unfolding c1_def using y by (intro byte_char_of) simp
  have b2: "byte c2 = 0x80 + z" unfolding c2_def using z by (intro byte_char_of) simp
  have sl: "seq_len c0 = 3" using x by (simp add: seq_len_def b0)
  have al: "accept_lo c0 \<le> byte c1" using lo x by (auto simp: accept_lo_def b0 b1)
  have ah: "byte c1 \<le> accept_hi c0" using hi x y by (auto simp: accept_hi_def b0 b1)
  have k2: "is_cont c2" using z by (simp add: is_cont_def b2)
  have "utf8_size (c0 # c1 # c2 # t) = 3" using sl al ah k2 by (rule utf8_size_three)
  then show ?thesis by (simp add: e)
qed

lemma enc4:
  assumes e: "0x10000 \<le> r" "r \<le> 0x10FFFF"
  shows "utf8_size (EncodeRune r @ t) = length (EncodeRune r)"
proof -
  define x where "x = r div 262144"
  define y where "y = r div 4096 mod 64"
  define z where "z = r div 64 mod 64"
  define w where "w = r mod 64"
  define c0 where "c0 = char_of (0xF0 + x)"
  define c1 where "c1 = char_of (0x80 + y)"
  define c2 where "c2 = char_of (0x80 + z)"
  define c3 where "c3 = char_of (0x80 + w)"
  have x: "x < 5" using x5 [OF e(2)] by (simp add: x_def)
  have y: "y < 64" by (simp add: y_def)
  have z: "z < 64" by (simp add: z_def)
  have w: "w < 64" by (simp add: w_def)
  have lo: "x = 0 \<longrightarrow> 16 \<le> y" using lo4 [OF e(1)] by (simp add: x_def y_def)
  have hi: "x = 4 \<longrightarrow> y < 16" using hi4 [OF e(2)] by (simp add: x_def y_def)
  have en: "EncodeRune r = [c0, c1, c2, c3]"
    using e by (simp add: EncodeRune_def x_def y_def z_def w_def c0_def c1_def c2_def c3_def)
  have b0: "byte c0 = 0xF0 + x" unfolding c0_def using x by (intro byte_char_of) simp
  have b1: "byte c1 = 0x80 + y" unfolding c1_def using y by (intro byte_char_of) simp
  have b2: "byte c2 = 0x80 + z" unfolding c2_def using z by (intro byte_char_of) simp
  have b3: "byte c3 = 0x80 + w" unfolding c3_def using w by (intro byte_char_of) simp
  have sl: "seq_len c0 = 4" using x by (simp add: seq_len_def b0)
  have al: "accept_lo c0 \<le> byte c1" using lo x by (auto simp: accept_lo_def b0 b1)
  have ah: "byte c1 \<le> accept_hi c0" using hi x y by (auto simp: accept_hi_def b0 b1)
  have k2: "is_cont c2" using z by (simp add: is_cont_def b2)
  have k3: "is_cont c3" using w by (simp add: is_cont_def b3)
  have "utf8_size (c0 # c1 # c2 # c3 # t) = 4" using sl al ah k2 k3 by (rule utf8_size_four)
  then show ?thesis by (simp add: en)
qed

lemma utf8_size_EncodeRune: "utf8_size (EncodeRune r @ t) = length (EncodeRune r)"
proof -
  consider (a) "r < 0x80" | (b) "0x80 \<le> r" "r < 0x800"
    | (c) "0x800 \<le> r" "0x10FFFF < r \<or> (0xD800 \<le> r \<and> r < 0xE000)"
    | (d) "0x800 \<le> r" "r < 0x10000" "\<not> (0xD800 \<le> r \<and> r < 0xE000)"
    | (e) "0x10000 \<le> r" "r \<le> 0x10FFFF"
    by linarith
  then show ?thesis
  proof cases
    case a
    then show ?thesis by (simp add: EncodeRune_def utf8_size_ascii)
  next
    case b
    then show ?thesis by (rule enc2)
  next
    case c
    then show ?thesis using utf8_size_replacement [of t]
      by (simp add: EncodeRune_def replacement_def)
  next
    case d
    then show ?thesis by (rule enc3)
  next
    case e
    then show ?thesis by (rule enc4)
  qed
qed

lemma EncodeRune_nonempty: "EncodeRune r \<noteq> []"
  by (simp add: EncodeRune_def replacement_def)

lemma utf8_valid_EncodeRune: "utf8_valid (EncodeRune r)"
proof -
  obtain c cs where e: "EncodeRune r = c # cs" using EncodeRune_nonempty [of r]
    by (cases "EncodeRune r") auto
  have "utf8_size (c # cs) = length (c # cs)" using utf8_size_EncodeRune [of r "[]"] e by simp
  then show ?thesis using e by simp
qed

subsection \<open>Strings: quoting and unquoting\<close>

lemma prepend_Some [simp]: "prepend p (Some (s, rest)) = Some (p @ s, rest)"
  by (simp add: prepend_def)

lemma prepend_None [simp]: "prepend p None = None"
  by (simp add: prepend_def)

lemma hexval_hexdigit: "n < 16 \<Longrightarrow> hexval (hexdigit n) = Some n"
  by (auto simp: hexval_def hexdigit_def Let_def)

lemma hex4_escape:
  "a < 16 \<Longrightarrow> b < 16 \<Longrightarrow>
   hex4 (CHR ''0'' # CHR ''0'' # hexdigit a # hexdigit b # t) = Some (a * 16 + b)"
  by (simp add: hex4_def hexval_hexdigit) (simp add: hexval_def)

lemma unquote_escape_byte:
  assumes "byte c < 0x80" "\<not> htmlSafe c"
  shows "unquote (escape_byte c @ t) = prepend [c] (unquote t)"
proof -
  consider (q) "c = backslash \<or> c = dquote"
    | (b) "c = CHR 0x08" | (f) "c = CHR 0x0C" | (n) "c = CHR 0x0A" | (r) "c = CHR 0x0D"
    | (t) "c = CHR 0x09"
    | (u) "c \<noteq> backslash" "c \<noteq> dquote" "c \<noteq> CHR 0x08" "c \<noteq> CHR 0x0C" "c \<noteq> CHR 0x0A"
          "c \<noteq> CHR 0x0D" "c \<noteq> CHR 0x09"
    by blast
  then show ?thesis
  proof cases
    case q then show ?thesis by (auto simp: escape_byte_def unescape_def)
  next
    case b then show ?thesis by (simp add: escape_byte_def unescape_def)
  next
    case f then show ?thesis by (simp add: escape_byte_def unescape_def)
  next
    case n then show ?thesis by (simp add: escape_byte_def unescape_def)
  next
    case r then show ?thesis by (simp add: escape_byte_def unescape_def)
  next
    case t then show ?thesis by (simp add: escape_byte_def unescape_def)
  next
    case u
    define hi where "hi = byte c div 16"
    define lo where "lo = byte c mod 16"
    have hi: "hi < 16" using assms(1) by (simp add: hi_def div_less_iff_less_mult)
    have lo: "lo < 16" by (simp add: lo_def)
    have v: "hi * 16 + lo = byte c" by (simp add: hi_def lo_def)
    have e: "escape_byte c = [backslash, CHR ''u'', CHR ''0'', CHR ''0'', hexdigit hi, hexdigit lo]"
      using u by (simp add: escape_byte_def hi_def lo_def)
    have h: "hex4 (CHR ''0'' # CHR ''0'' # hexdigit hi # hexdigit lo # t) = Some (byte c)"
      using hex4_escape [OF hi lo, of t] v by simp
    have er: "EncodeRune (byte c) = [c]" using assms(1) by (simp add: EncodeRune_def)
    show ?thesis using assms(1) by (simp add: e h er)
  qed
qed


lemma hex4_2028: "hex4 (''2028'' @ t) = Some 0x2028"
  by (simp add: hex4_def hexval_def)

lemma hex4_2029: "hex4 (''2029'' @ t) = Some 0x2029"
  by (simp add: hex4_def hexval_def)

lemma EncodeRune_2028: "EncodeRune 0x2028 = [CHR 0xE2, CHR 0x80, CHR 0xA8]"
  by (simp add: EncodeRune_def char_of_eq_iff)

lemma EncodeRune_2029: "EncodeRune 0x2029 = [CHR 0xE2, CHR 0x80, CHR 0xA9]"
  by (simp add: EncodeRune_def char_of_eq_iff)

lemma utf8_size_E2:
  "utf8_size (CHR 0xE2 # CHR 0x80 # c # t) = (if is_cont c then 3 else 0)"
  by (simp add: utf8_size_def seq_len_def accept_lo_def accept_hi_def)

lemma take3_eq:
  assumes "take 3 (c # cs) = [x, y, z]"
  shows "c = x \<and> cs = y # z # drop 2 cs"
proof -
  from assms have "c = x" by simp
  moreover from assms have t: "take 2 cs = [y, z]" by simp
  have "cs = take 2 cs @ drop 2 cs" by simp
  with t have "cs = y # z # drop 2 cs" by simp
  ultimately show ?thesis by simp
qed

lemma unquote_multibyte:
  assumes "0x80 \<le> byte c" "0 < utf8_size (c # cs)"
  shows "unquote (take (utf8_size (c # cs)) (c # cs) @ t) =
         prepend (take (utf8_size (c # cs)) (c # cs)) (unquote t)"
proof -
  obtain m where m: "utf8_size (c # cs) = Suc m" using assms(2) by (cases "utf8_size (c # cs)") auto
  have len: "m \<le> length cs" using utf8_size_tail [OF assms(2)] m by simp
  have sz: "utf8_size (c # take m cs @ t) = Suc m" using utf8_size_take_append [OF assms(2), of t] m by simp
  have nq: "c \<noteq> dquote" "c \<noteq> backslash" using assms(1) by auto
  have "unquote (c # take m cs @ t) = prepend (c # take m cs) (unquote t)"
    using assms(1) nq sz len by (simp add: not_less [symmetric])
  then show ?thesis using m by simp
qed

lemma unquote_appendString:
  "utf8_valid s \<Longrightarrow> unquote (appendString s @ dquote # rest) = Some (s, rest)"
proof (induction s rule: appendString.induct)
  case 1
  then show ?case by simp
next
  case (2 c cs)
  from "2.prems" have pos: "0 < utf8_size (c # cs)"
    and vt: "utf8_valid (drop (utf8_size (c # cs) - 1) cs)" by simp_all
  show ?case
  proof (cases "byte c < 0x80")
    case True
    then have "utf8_size (c # cs) = 1" by (rule utf8_size_ascii)
    with vt have vcs: "utf8_valid cs" by simp
    show ?thesis
    proof (cases "htmlSafe c")
      case safe: True
      have ih: "unquote (appendString cs @ dquote # rest) = Some (cs, rest)"
        using "2.IH"(1) [OF True safe vcs] .
      from safe have "c \<noteq> dquote" "c \<noteq> backslash" "\<not> byte c < 0x20"
        by (auto simp: htmlSafe_def)
      then show ?thesis using True safe ih by simp
    next
      case unsafe: False
      have ih: "unquote (appendString cs @ dquote # rest) = Some (cs, rest)"
        using "2.IH"(2) [OF True unsafe vcs] .
      show ?thesis using True unsafe ih
        by (simp add: unquote_escape_byte del: unquote.simps)
    qed
  next
    case False
    then have hi: "0x80 \<le> byte c" by simp
    from pos have nz: "utf8_size (c # cs) \<noteq> 0" by simp
    show ?thesis
    proof (cases "take 3 (c # cs) = [CHR 0xE2, CHR 0x80, CHR 0xA8]")
      case ls: True
      from take3_eq [OF ls] have c: "c = CHR 0xE2" and cs: "cs = CHR 0x80 # CHR 0xA8 # drop 2 cs"
        by simp_all
      have "utf8_size (c # cs) = 3"
        by (subst cs, subst c) (simp add: utf8_size_E2 is_cont_def)
      with vt have v2: "utf8_valid (drop 2 cs)" by simp
      have ih: "unquote (appendString (drop 2 cs) @ dquote # rest) = Some (drop 2 cs, rest)"
        using "2.IH"(4) [OF False nz ls v2] .
      have "unquote (appendString (c # cs) @ dquote # rest) =
            prepend (EncodeRune 0x2028) (unquote (appendString (drop 2 cs) @ dquote # rest))"
        using False nz ls by (simp add: hex4_2028 [simplified])
      also have "\<dots> = Some ([CHR 0xE2, CHR 0x80, CHR 0xA8] @ drop 2 cs, rest)"
        by (simp add: ih EncodeRune_2028)
      also have "[CHR 0xE2, CHR 0x80, CHR 0xA8] @ drop 2 cs = c # cs"
        using c cs by simp
      finally show ?thesis .
    next
      case nls: False
      show ?thesis
      proof (cases "take 3 (c # cs) = [CHR 0xE2, CHR 0x80, CHR 0xA9]")
        case ps: True
        from take3_eq [OF ps] have c: "c = CHR 0xE2" and cs: "cs = CHR 0x80 # CHR 0xA9 # drop 2 cs"
          by simp_all
        have "utf8_size (c # cs) = 3"
          by (subst cs, subst c) (simp add: utf8_size_E2 is_cont_def)
        with vt have v2: "utf8_valid (drop 2 cs)" by simp
        have ih: "unquote (appendString (drop 2 cs) @ dquote # rest) = Some (drop 2 cs, rest)"
          using "2.IH"(5) [OF False nz nls ps v2] .
        have "unquote (appendString (c # cs) @ dquote # rest) =
              prepend (EncodeRune 0x2029) (unquote (appendString (drop 2 cs) @ dquote # rest))"
          using False nz nls ps by (simp add: hex4_2029 [simplified])
        also have "\<dots> = Some ([CHR 0xE2, CHR 0x80, CHR 0xA9] @ drop 2 cs, rest)"
          by (simp add: ih EncodeRune_2029)
        also have "[CHR 0xE2, CHR 0x80, CHR 0xA9] @ drop 2 cs = c # cs"
          using c cs by simp
        finally show ?thesis .
      next
        case nps: False
        let ?n = "utf8_size (c # cs)"
        have ih: "unquote (appendString (drop (?n - 1) cs) @ dquote # rest) = Some (drop (?n - 1) cs, rest)"
          using "2.IH"(6) [OF False nz nls nps vt] .
        have a: "appendString (c # cs) = take ?n (c # cs) @ appendString (drop (?n - 1) cs)"
          by (subst appendString.simps) (simp only: False nz nls nps if_False)
        have "unquote (appendString (c # cs) @ dquote # rest) =
              prepend (take ?n (c # cs)) (unquote (appendString (drop (?n - 1) cs) @ dquote # rest))"
          unfolding a using unquote_multibyte [OF hi pos] by simp
        also have "\<dots> = Some (take ?n (c # cs) @ drop (?n - 1) cs, rest)"
          using ih by simp
        also have "take ?n (c # cs) @ drop (?n - 1) cs = c # cs"
        proof -
          obtain m where m: "?n = Suc m" using pos by (cases ?n) auto
          then show ?thesis by simp
        qed
        finally show ?thesis .
      qed
    qed
  qed
qed

lemma yields_valid_None: "yields_valid None"
  by (simp add: yields_valid_def)

lemma yields_valid_Nil: "yields_valid (Some ([], r))"
  by (simp add: yields_valid_def)

lemma yields_valid_prepend: "utf8_valid p \<Longrightarrow> yields_valid x \<Longrightarrow> yields_valid (prepend p x)"
  by (auto simp: yields_valid_def prepend_def utf8_valid_append split: option.splits)

lemma unescape_ascii: "unescape e = Some b \<Longrightarrow> utf8_valid [b]"
  by (auto simp: unescape_def utf8_size_ascii split: if_splits)

lemma yields_valid_unquote_bounded: "length s \<le> n \<Longrightarrow> yields_valid (unquote s)"
proof (induction n arbitrary: s)
  case 0
  then show ?case by (simp add: yields_valid_None)
next
  case (Suc n)
  show ?case
  proof (cases s)
    case Nil
    then show ?thesis by (simp add: yields_valid_None)
  next
    case (Cons c cs)
    with Suc.prems have len: "length cs \<le> n" by simp
    have ih: "\<And>k. yields_valid (unquote (drop k cs))" using len by (intro Suc.IH) simp
    have ih0: "yields_valid (unquote cs)" using ih [of 0] by simp
    have vseq: "utf8_size (c # cs) \<noteq> 0 \<Longrightarrow> utf8_valid (take (utf8_size (c # cs)) (c # cs))"
      using utf8_valid_seq [of c cs] by simp
    have esc: "c = backslash \<Longrightarrow> yields_valid (unquote (c # cs))"
    proof (cases cs)
      case Nil
      assume "c = backslash"
      with Nil show ?thesis by (simp add: yields_valid_None)
    next
      case (Cons e es)
      assume c: "c = backslash"
      have ihe: "\<And>k. yields_valid (unquote (drop k es))" using ih [of "Suc _"] Cons by simp
      have ihe0: "yields_valid (unquote es)" using ihe [of 0] by simp
      show ?thesis
      proof (cases "e = CHR ''u''")
        case True
        show ?thesis
        proof (cases "hex4 es")
          case None
          with c Cons True show ?thesis by (simp add: yields_valid_None)
        next
          case (Some r)
          show ?thesis
          proof (cases "0xD800 \<le> r \<and> r < 0xE000")
            case False
            then have "unquote (c # cs) = prepend (EncodeRune r) (unquote (drop 4 es))"
              using c Cons True Some by auto
            then show ?thesis by (simp only: yields_valid_prepend utf8_valid_EncodeRune ihe)
          next
            case sur: True
            show ?thesis
            proof (cases "getu4 (drop 4 es)")
              case None
              then have "unquote (c # cs) = prepend replacement (unquote (drop 4 es))"
                using c Cons True Some sur by simp
              then show ?thesis by (simp only: yields_valid_prepend utf8_valid_replacement ihe)
            next
              case (Some r2)
              show ?thesis
              proof (cases "r < 0xDC00 \<and> 0xDC00 \<le> r2 \<and> r2 < 0xE000")
                case True
                then have "unquote (c # cs) =
                    prepend (EncodeRune (0x10000 + (r - 0xD800) * 1024 + (r2 - 0xDC00)))
                      (unquote (drop 10 es))"
                  using c Cons \<open>e = CHR ''u''\<close> \<open>hex4 es = Some r\<close> sur Some by simp
                then show ?thesis by (simp only: yields_valid_prepend utf8_valid_EncodeRune ihe)
              next
                case False
                then have "unquote (c # cs) = prepend replacement (unquote (drop 4 es))"
                  using c Cons \<open>e = CHR ''u''\<close> \<open>hex4 es = Some r\<close> sur Some by auto
                then show ?thesis by (simp only: yields_valid_prepend utf8_valid_replacement ihe)
              qed
            qed
          qed
        qed
      next
        case False
        show ?thesis
        proof (cases "unescape e")
          case None
          with c Cons False show ?thesis by (simp add: yields_valid_None)
        next
          case (Some b)
          then have "unquote (c # cs) = prepend [b] (unquote es)" using c Cons False by simp
          then show ?thesis using unescape_ascii [OF Some] by (simp only: yields_valid_prepend ihe0)
        qed
      qed
    qed
    have other: "c \<noteq> backslash \<Longrightarrow> yields_valid (unquote (c # cs))"
    proof -
      assume nb: "c \<noteq> backslash"
      consider (q) "c = dquote" | (ctl) "c \<noteq> dquote" "byte c < 0x20"
        | (asc) "c \<noteq> dquote" "\<not> byte c < 0x20" "byte c < 0x80"
        | (bad) "c \<noteq> dquote" "\<not> byte c < 0x20" "\<not> byte c < 0x80" "utf8_size (c # cs) = 0"
        | (seq) "c \<noteq> dquote" "\<not> byte c < 0x20" "\<not> byte c < 0x80" "utf8_size (c # cs) \<noteq> 0"
        by blast
      then show ?thesis
      proof cases
        case q
        then show ?thesis by (simp add: yields_valid_Nil)
      next
        case ctl
        then show ?thesis using nb by (simp add: yields_valid_None)
      next
        case asc
        then have "unquote (c # cs) = prepend [c] (unquote cs)" using nb by simp
        then show ?thesis using utf8_valid_ascii [OF asc(3)] by (simp only: yields_valid_prepend ih0)
      next
        case bad
        then have "unquote (c # cs) = prepend replacement (unquote cs)" using nb by simp
        then show ?thesis by (simp only: yields_valid_prepend utf8_valid_replacement ih0)
      next
        case seq
        then have "unquote (c # cs) = prepend (take (utf8_size (c # cs)) (c # cs))
            (unquote (drop (utf8_size (c # cs) - 1) cs))" using nb by simp
        then show ?thesis using vseq [OF seq(4)] by (simp only: yields_valid_prepend ih)
      qed
    qed
    from esc other show ?thesis unfolding Cons by blast
  qed
qed

lemma yields_valid_unquote: "yields_valid (unquote s)"
  by (rule yields_valid_unquote_bounded [of s "length s"]) simp

lemma unquote_valid: "unquote s = Some (t, rest) \<Longrightarrow> utf8_valid t"
  using yields_valid_unquote [of s] by (simp add: yields_valid_def)

subsection \<open>What Unmarshal yields\<close>

lemma parse_value_member_valid: "parse_value n d s = Some (v, r) \<Longrightarrow> member_valid v"
proof (cases n)
  case 0
  assume "parse_value n d s = Some (v, r)"
  with 0 show ?thesis by simp
next
  case (Suc m)
  assume p: "parse_value n d s = Some (v, r)"
  show ?thesis
  proof (cases "\<exists>t. v = JString t")
    case False
    then show ?thesis by (cases v) (simp_all add: member_valid_def)
  next
    case True
    then obtain t where t: "v = JString t" by blast
    from p have "\<exists>cs. unquote cs = Some (t, r)"
      unfolding Suc t
      by (auto simp: scan_literal_def split: list.splits if_splits option.splits prod.splits)
    then show ?thesis using unquote_valid t by (auto simp: member_valid_def)
  qed
qed

lemma parse_members_valid:
  "parse_members n d s = Some (ms, r) \<Longrightarrow> list_all (\<lambda>m. member_valid (snd m)) ms"
proof (induction n arbitrary: s ms r)
  case 0
  then show ?case by simp
next
  case (Suc n)
  from Suc.prems show ?case
    by (auto split: list.splits if_splits option.splits prod.splits
        dest: parse_value_member_valid Suc.IH)
qed

lemma store_member_valid:
  "store_member f v a = Some a' \<Longrightarrow> member_valid v \<Longrightarrow> valid_Asset a \<Longrightarrow> valid_Asset a'"
  by (cases v; cases f)
    (auto simp: store_member_def store_string_def store_number_def member_valid_def valid_Asset_def
      split: option.splits)

lemma store_members_valid:
  "store_members ms a = Some a' \<Longrightarrow> list_all (\<lambda>m. member_valid (snd m)) ms \<Longrightarrow>
   valid_Asset a \<Longrightarrow> valid_Asset a'"
proof (induction ms a rule: store_members.induct)
  case (1 a)
  then show ?case by simp
next
  case (2 k v ms a)
  then show ?case
    by (auto split: option.splits dest: store_member_valid)
qed

lemma valid_zero_Asset: "valid_Asset zero_Asset"
  by (simp add: valid_Asset_def zero_Asset_def)

lemma parse_json_object_valid:
  assumes "parse_json s = Some (JObject ms)"
  shows "list_all (\<lambda>m. member_valid (snd m)) ms"
proof -
  from assms obtain n r where p: "parse_value (Suc n) 0 s = Some (JObject ms, r)"
    by (auto simp: parse_json_def split: option.splits if_splits)
  then have "ms = [] \<or> (\<exists>t r'. parse_members n (Suc 0) t = Some (ms, r'))"
    by (auto simp: scan_literal_def split: list.splits if_splits option.splits prod.splits)
  then show ?thesis using parse_members_valid by auto
qed

lemma Unmarshal_valid: "Unmarshal s = Inr a \<Longrightarrow> valid_Asset a"
  by (auto simp: Unmarshal_def valid_zero_Asset split: option.splits json.splits
      dest: parse_json_object_valid store_members_valid)

subsection \<open>Parsing what Marshal writes\<close>

lemma skip_ws_nonspace: "\<not> isSpace c \<Longrightarrow> skip_ws (c # cs) = c # cs"
  by (simp add: skip_ws_def)

lemma parse_value_string:
  assumes "utf8_valid s"
  shows "parse_value (Suc n) d (quote s @ rest) = Some (JString s, rest)"
proof -
  have q: "quote s @ rest = dquote # appendString s @ dquote # rest" by (simp add: quote_def)
  have ns: "\<not> isSpace dquote" by (simp add: isSpace_def)
  show ?thesis unfolding q
    by (simp add: skip_ws_nonspace [OF ns] unquote_appendString [OF assms] del: unquote.simps)
qed

lemma parse_value_number:
  assumes "ends_value c"
  shows "parse_value (Suc n) d (FormatInt i @ c # r) = Some (JNumber (FormatInt i), c # r)"
proof -
  obtain x xs where f: "FormatInt i = x # xs" and x: "x = CHR ''-'' \<or> isDigit x"
    using FormatInt_first [of i] by blast
  have ns: "\<not> isSpace x" using x by (auto simp: isSpace_def isDigit_def)
  have nb: "x \<noteq> CHR ''{''" "x \<noteq> CHR ''[''" "x \<noteq> dquote" using x by (auto simp: isDigit_def)
  have sn: "scan_number (x # xs @ c # r) = Some (x # xs, c # r)"
    using scan_number_FormatInt [OF assms, of i r] f by simp
  show ?thesis unfolding f using x nb
    by (simp add: skip_ws_nonspace [OF ns] sn del: unquote.simps)
qed

lemma parse_members_more:
  assumes "unquote ks = Some (k, CHR '':'' # r1)"
    and "parse_value m d r1 = Some (v, CHR '','' # r3)"
    and "parse_members m d r3 = Some (ms, r4)"
  shows "parse_members (Suc m) d (dquote # ks) = Some ((k, v) # ms, r4)"
  using assms by (simp add: skip_ws_def isSpace_def del: unquote.simps)

lemma parse_members_last:
  assumes "unquote ks = Some (k, CHR '':'' # r1)"
    and "parse_value m d r1 = Some (v, CHR ''}'' # r3)"
  shows "parse_members (Suc m) d (dquote # ks) = Some ([(k, v)], r3)"
  using assms by (simp add: skip_ws_def isSpace_def del: unquote.simps)

lemma parse_value_object:
  assumes "parse_members n (Suc d) (dquote # ks) = Some (ms, r)" "d < maxNestingDepth"
  shows "parse_value (Suc n) d (CHR ''{'' # dquote # ks) = Some (JObject ms, r)"
  using assms by (simp add: skip_ws_def isSpace_def del: unquote.simps parse_members.simps)

lemma unquote_key_asset_id: \<open>unquote (''asset_id":'' @ t) = Some (''asset_id'', CHR '':'' # t)\<close>
  by simp

lemma unquote_key_color: \<open>unquote (''color":'' @ t) = Some (''color'', CHR '':'' # t)\<close>
  by simp

lemma unquote_key_size: \<open>unquote (''size":'' @ t) = Some (''size'', CHR '':'' # t)\<close>
  by simp

lemma unquote_key_owner: \<open>unquote (''owner":'' @ t) = Some (''owner'', CHR '':'' # t)\<close>
  by simp

lemma unquote_key_appraisedValue:
  \<open>unquote (''appraisedValue":'' @ t) = Some (''appraisedValue'', CHR '':'' # t)\<close>
  by simp

lemma ends_value_comma: "ends_value (CHR '','')"
  by (simp add: ends_value_def)

lemma ends_value_brace: "ends_value (CHR ''}'')"
  by (simp add: ends_value_def)

lemma parse_members_Marshal:
  assumes "utf8_valid i" "utf8_valid c" "utf8_valid ow"
  shows \<open>parse_members (Suc (Suc (Suc (Suc (Suc (Suc n)))))) d
      (dquote # ''asset_id":'' @ quote i @ CHR '','' # dquote # ''color":'' @ quote c
        @ CHR '','' # dquote # ''size":'' @ FormatInt sz
        @ CHR '','' # dquote # ''owner":'' @ quote ow
        @ CHR '','' # dquote # ''appraisedValue":'' @ FormatInt av @ ''}'')
    = Some ([(''asset_id'', JString i), (''color'', JString c), (''size'', JNumber (FormatInt sz)),
             (''owner'', JString ow), (''appraisedValue'', JNumber (FormatInt av))], [])\<close>
proof -
  let ?T5 = \<open>''appraisedValue":'' @ FormatInt av @ ''}''\<close>
  let ?T4 = \<open>''owner":'' @ quote ow @ CHR '','' # dquote # ?T5\<close>
  let ?T3 = \<open>''size":'' @ FormatInt sz @ CHR '','' # dquote # ?T4\<close>
  let ?T2 = \<open>''color":'' @ quote c @ CHR '','' # dquote # ?T3\<close>
  let ?T1 = \<open>''asset_id":'' @ quote i @ CHR '','' # dquote # ?T2\<close>
  have p5: "parse_members (Suc (Suc n)) d (dquote # ?T5)
      = Some ([(''appraisedValue'', JNumber (FormatInt av))], [])"
    by (rule parse_members_last [OF unquote_key_appraisedValue parse_value_number [OF ends_value_brace]])
  have p4: "parse_members (Suc (Suc (Suc n))) d (dquote # ?T4)
      = Some ([(''owner'', JString ow), (''appraisedValue'', JNumber (FormatInt av))], [])"
    by (rule parse_members_more [OF unquote_key_owner parse_value_string [OF assms(3)] p5])
  have p3: "parse_members (Suc (Suc (Suc (Suc n)))) d (dquote # ?T3)
      = Some ([(''size'', JNumber (FormatInt sz)), (''owner'', JString ow),
               (''appraisedValue'', JNumber (FormatInt av))], [])"
    by (rule parse_members_more [OF unquote_key_size parse_value_number [OF ends_value_comma] p4])
  have p2: "parse_members (Suc (Suc (Suc (Suc (Suc n))))) d (dquote # ?T2)
      = Some ([(''color'', JString c), (''size'', JNumber (FormatInt sz)), (''owner'', JString ow),
               (''appraisedValue'', JNumber (FormatInt av))], [])"
    by (rule parse_members_more [OF unquote_key_color parse_value_string [OF assms(2)] p3])
  have p1: "parse_members (Suc (Suc (Suc (Suc (Suc (Suc n)))))) d (dquote # ?T1)
      = Some ([(''asset_id'', JString i), (''color'', JString c), (''size'', JNumber (FormatInt sz)),
               (''owner'', JString ow), (''appraisedValue'', JNumber (FormatInt av))], [])"
    by (rule parse_members_more [OF unquote_key_asset_id parse_value_string [OF assms(1)] p2])
  show ?thesis by (rule p1)
qed

lemma field_of_tags:
  "field_of ''asset_id'' = Some F_asset_id"
  "field_of ''color'' = Some F_color"
  "field_of ''size'' = Some F_size"
  "field_of ''owner'' = Some F_owner"
  "field_of ''appraisedValue'' = Some F_appraisedValue"
  by (simp_all add: field_of_def char_of_eq_iff)

lemma parse_json_Marshal:
  assumes "valid_Asset a" "Marshal a = Inr j"
  shows "parse_json j = Some (JObject
      [(''asset_id'', JString (ID a)), (''color'', JString (Color a)),
       (''size'', JNumber (FormatInt (sint (Size a)))), (''owner'', JString (Owner a)),
       (''appraisedValue'', JNumber (FormatInt (sint (AppraisedValue a))))])"
proof -
  let ?ks = \<open>''asset_id":'' @ quote (ID a) @ CHR '','' # dquote # ''color":'' @ quote (Color a)
        @ CHR '','' # dquote # ''size":'' @ FormatInt (sint (Size a))
        @ CHR '','' # dquote # ''owner":'' @ quote (Owner a)
        @ CHR '','' # dquote # ''appraisedValue":'' @ FormatInt (sint (AppraisedValue a)) @ ''}''\<close>
  have j: "j = CHR ''{'' # dquote # ?ks" using assms(2) by (simp add: Marshal_def)
  have "7 \<le> 2 * length j + 2" unfolding j by simp
  then obtain n where n: "2 * length j + 2 = Suc (Suc (Suc (Suc (Suc (Suc (Suc n))))))"
    using that [of "2 * length j + 2 - 7"] by simp
  from assms(1) have v: "utf8_valid (ID a)" "utf8_valid (Color a)" "utf8_valid (Owner a)"
    by (simp_all add: valid_Asset_def)
  have d: "0 < maxNestingDepth" by (simp add: maxNestingDepth_def)
  have "parse_value (Suc (Suc (Suc (Suc (Suc (Suc (Suc n))))))) 0 (CHR ''{'' # dquote # ?ks)
      = Some (JObject
      [(''asset_id'', JString (ID a)), (''color'', JString (Color a)),
       (''size'', JNumber (FormatInt (sint (Size a)))), (''owner'', JString (Owner a)),
       (''appraisedValue'', JNumber (FormatInt (sint (AppraisedValue a))))], [])"
    by (rule parse_value_object [OF parse_members_Marshal [OF v] d])
  then show ?thesis unfolding parse_json_def n [symmetric] j [symmetric]
    by (simp add: skip_ws_def)
qed

lemma Unmarshal_Marshal:
  assumes "valid_Asset a" "Marshal a = Inr j"
  shows "Unmarshal j = Inr a"
proof -
  have "store_members
      [(''asset_id'', JString (ID a)), (''color'', JString (Color a)),
       (''size'', JNumber (FormatInt (sint (Size a)))), (''owner'', JString (Owner a)),
       (''appraisedValue'', JNumber (FormatInt (sint (AppraisedValue a))))] zero_Asset = Some a"
    by (simp add: field_of_tags store_member_def store_string_def store_number_def
        ParseInt_FormatInt_sint zero_Asset_def)
  then show ?thesis unfolding Unmarshal_def parse_json_Marshal [OF assms] by simp
qed

lemma Marshal_total: "\<exists>j. Marshal a = Inr j"
  by (simp add: Marshal_def)

section \<open>Properties of the contract\<close>

subsection \<open>The stub\<close>

lemma called_eq: "called c l = (fails_next l, advance c l)"
  by (cases "faults l") (simp_all add: called_def fails_next_def advance_def)

lemma world_advance [simp]: "world (advance c l) = world l"
  by (simp add: advance_def)

lemma trace_advance [simp]: "trace (advance c l) = trace l @ [c]"
  by (simp add: advance_def)

lemma faults_advance [simp]: "faults (advance c l) = tl (faults l)"
  by (simp add: advance_def)

lemma GetState_eq:
  "GetState k l = (if fails_next l then Inl StoreError else Inr (map_of (world l) k), advance (CallGetState k) l)"
  by (simp add: GetState_def called_eq)

lemma PutState_eq:
  "PutState k v l = (if fails_next l then (Inl StoreError, advance (CallPutState k v) l)
     else (Inr (), (advance (CallPutState k v) l)\<lparr>world := insert_entry k v (delete_entry k (world l))\<rparr>))"
  by (simp add: PutState_def called_eq)

lemma DelState_eq:
  "DelState k l = (if fails_next l then (Inl StoreError, advance (CallDelState k) l)
     else (Inr (), (advance (CallDelState k) l)\<lparr>world := delete_entry k (world l)\<rparr>))"
  by (simp add: DelState_def called_eq)

lemma AssetExists_eq:
  "AssetExists l k = (if fails_next l then Inl StoreError else Inr (map_of (world l) k \<noteq> None),
     advance (CallGetState k) l)"
  by (simp add: AssetExists_def GetState_eq)

lemma map_of_delete_entry: "map_of (delete_entry k w) k' = (if k' = k then None else map_of w k')"
  by (induction w) (auto simp: delete_entry_def)

lemma map_of_insert_entry:
  "map_of w k = None \<Longrightarrow> map_of (insert_entry k v w) k' = (if k' = k then Some v else map_of w k')"
  by (induction w) (auto split: if_splits)

lemma map_of_put:
  "map_of (insert_entry k v (delete_entry k w)) k' = (if k' = k then Some v else map_of w k')"
  by (simp add: map_of_insert_entry map_of_delete_entry)

lemma DeleteAsset_result:
  assumes "Unmarshal raw = Inr req" "map_of (world ctx) (ID req) = Some v"
  shows "fst (DeleteAsset ctx raw) = (if fails_next ctx \<or> fails_next (advance (CallGetState (ID req)) ctx)
           then Inl StoreError else Inr ''CreateAsset OK'')"
  using assms by (simp add: DeleteAsset_def AssetExists_eq DelState_eq)

lemma reliable_fails_next: "reliable l \<Longrightarrow> \<not> fails_next l"
  by (cases "faults l") (simp_all add: reliable_def fails_next_def)

lemma reliable_advance: "reliable l \<Longrightarrow> reliable (advance c l)"
  by (cases "faults l") (simp_all add: reliable_def)

lemma reliable_world_update [simp]: "reliable (l\<lparr>world := w\<rparr>) = reliable l"
  by (simp add: reliable_def)

lemma fails_next_world_update [simp]: "fails_next (l\<lparr>world := w\<rparr>) = fails_next l"
  by (simp add: fails_next_def)

lemma advance_world_update: "advance c (l\<lparr>world := w\<rparr>) = (advance c l)\<lparr>world := w\<rparr>"
  by (simp add: advance_def)

subsection \<open>DeleteAsset\<close>

text \<open>
  C4. A delete request whose id is in the store: when DeleteAsset succeeds, the status it
  returns is the text of CreateAsset, \<^verbatim>\<open>CreateAsset OK\<close>.
\<close>

theorem DeleteAsset_status:
  assumes "Unmarshal rawAssetDeleteRequest = Inr req"
    and "map_of (world ctx) (ID req) = Some stored"
    and "DeleteAsset ctx rawAssetDeleteRequest = (Inr status, ctx')"
  shows "status = ''CreateAsset OK''"
  using assms
  by (auto simp: DeleteAsset_def AssetExists_eq DelState_eq split: if_splits)

lemma Unmarshal_id_request:
  \<open>Unmarshal ''{"asset_id":"asset1"}'' =
     Inr \<lparr>ID = ''asset1'', Color = [], Size = 0, Owner = [], AppraisedValue = 0\<rparr>\<close>
  by code_simp

theorem DeleteAsset_status_witness:
  \<open>Unmarshal ''{"asset_id":"asset1"}'' =
     Inr \<lparr>ID = ''asset1'', Color = [], Size = 0, Owner = [], AppraisedValue = 0\<rparr>
   \<and> map_of (world \<lparr>world = [(''asset1'', ''{}'')], faults = [], trace = []\<rparr>)
        (ID \<lparr>ID = ''asset1'', Color = [], Size = 0, Owner = [], AppraisedValue = 0\<rparr>) = Some ''{}''
   \<and> DeleteAsset \<lparr>world = [(''asset1'', ''{}'')], faults = [], trace = []\<rparr> ''{"asset_id":"asset1"}''
       = (Inr ''CreateAsset OK'',
          \<lparr>world = [], faults = [], trace = [CallGetState ''asset1'', CallDelState ''asset1'']\<rparr>)\<close>
proof -
  let ?ctx = "\<lparr>world = [(''asset1'', ''{}'')], faults = [], trace = []\<rparr>"
  let ?req = "\<lparr>ID = ''asset1'', Color = [], Size = 0, Owner = [], AppraisedValue = 0\<rparr>"
  have h2: "map_of (world ?ctx) (ID ?req) = Some ''{}''" by simp
  have h3: \<open>DeleteAsset ?ctx ''{"asset_id":"asset1"}''
       = (Inr ''CreateAsset OK'',
          \<lparr>world = [], faults = [], trace = [CallGetState ''asset1'', CallDelState ''asset1'']\<rparr>)\<close>
    by (simp add: DeleteAsset_def Unmarshal_id_request AssetExists_eq DelState_eq fails_next_def
        advance_def delete_entry_def)
  from DeleteAsset_status [OF Unmarshal_id_request h2 h3] Unmarshal_id_request h2 h3
  show ?thesis by simp
qed

subsection \<open>Operations on one asset\<close>

lemma ReadAsset_eq:
  assumes "Unmarshal raw = Inr req"
  shows "ReadAsset ctx raw =
     (if fails_next ctx then Inl StoreError
      else case map_of (world ctx) (ID req) of
          None \<Rightarrow> Inl (NotFound (ID req))
        | Some assetJSON \<Rightarrow> (case Unmarshal assetJSON of Inl err \<Rightarrow> Inl err | Inr asset \<Rightarrow> Inr asset),
      advance (CallGetState (ID req)) ctx)"
  using assms by (simp add: ReadAsset_def GetState_eq split: option.splits sum.splits)

text \<open>
  C8. A well-formed request that names an id absent from the store: ReadAsset, UpdateAsset,
  DeleteAsset and TransferAsset each fail with NotFound for that id, and the store is
  unchanged. The only other outcome is the error of the stub, when its call fails; the
  store is unchanged then too.
\<close>

theorem missing_target_NotFound:
  assumes "Unmarshal raw = Inr req" and "map_of (world ctx) (ID req) = None"
  shows "fst (ReadAsset ctx raw) = Inl (if fails_next ctx then StoreError else NotFound (ID req))
       \<and> world (snd (ReadAsset ctx raw)) = world ctx
       \<and> fst (UpdateAsset ctx raw) = Inl (if fails_next ctx then StoreError else NotFound (ID req))
       \<and> world (snd (UpdateAsset ctx raw)) = world ctx
       \<and> fst (DeleteAsset ctx raw) = Inl (if fails_next ctx then StoreError else NotFound (ID req))
       \<and> world (snd (DeleteAsset ctx raw)) = world ctx
       \<and> fst (TransferAsset ctx raw) = Inl (if fails_next ctx then StoreError else NotFound (ID req))
       \<and> world (snd (TransferAsset ctx raw)) = world ctx"
  using assms
  by (simp add: ReadAsset_eq UpdateAsset_def DeleteAsset_def TransferAsset_def AssetExists_eq)

theorem missing_target_NotFound_witness:
  \<open>Unmarshal ''{"asset_id":"asset1"}'' =
     Inr \<lparr>ID = ''asset1'', Color = [], Size = 0, Owner = [], AppraisedValue = 0\<rparr>
   \<and> map_of (world \<lparr>world = [], faults = [], trace = []\<rparr>) ''asset1'' = None
   \<and> fst (ReadAsset \<lparr>world = [], faults = [], trace = []\<rparr> ''{"asset_id":"asset1"}'')
       = Inl (NotFound ''asset1'')
   \<and> fst (UpdateAsset \<lparr>world = [], faults = [], trace = []\<rparr> ''{"asset_id":"asset1"}'')
       = Inl (NotFound ''asset1'')
   \<and> fst (DeleteAsset \<lparr>world = [], faults = [], trace = []\<rparr> ''{"asset_id":"asset1"}'')
       = Inl (NotFound ''asset1'')
   \<and> fst (TransferAsset \<lparr>world = [], faults = [], trace = []\<rparr> ''{"asset_id":"asset1"}'')
       = Inl (NotFound ''asset1'')
   \<and> world (snd (DeleteAsset \<lparr>world = [], faults = [], trace = []\<rparr> ''{"asset_id":"asset1"}'')) = []\<close>
proof -
  let ?ctx = "\<lparr>world = [], faults = [], trace = []\<rparr>"
  let ?req = "\<lparr>ID = ''asset1'', Color = [], Size = 0, Owner = [], AppraisedValue = 0\<rparr>"
  have h2: "map_of (world ?ctx) (ID ?req) = None" by simp
  have nf: "\<not> fails_next ?ctx" by (simp add: fails_next_def)
  from missing_target_NotFound [OF Unmarshal_id_request h2] Unmarshal_id_request nf
  show ?thesis by simp
qed

text \<open>
  C2. After CreateAsset of a request has succeeded, CreateAsset of the same request on the
  resulting ledger fails with AlreadyExists for the asset's id (with the error of the
  stub when its call fails), and the store is the same after the second call.
\<close>

theorem CreateAsset_twice:
  assumes "Unmarshal raw = Inr a" and "CreateAsset ctx raw = (Inr status, ctx1)"
  shows "fst (CreateAsset ctx1 raw) = Inl (if fails_next ctx1 then StoreError else AlreadyExists (ID a))
       \<and> world (snd (CreateAsset ctx1 raw)) = world ctx1"
proof -
  from assms have "map_of (world ctx1) (ID a) \<noteq> None"
    by (auto simp: CreateAsset_def AssetExists_eq PutState_eq Marshal_def map_of_put split: if_splits)
  then show ?thesis using assms(1) by (simp add: CreateAsset_def AssetExists_eq)
qed

lemma valid_Asset_Owner:
  "valid_Asset old \<Longrightarrow> valid_Asset req \<Longrightarrow> valid_Asset (old\<lparr>Owner := Owner req\<rparr>)"
  by (simp add: valid_Asset_def)

lemma TransferAsset_success:
  assumes "Unmarshal raw = Inr req" "TransferAsset ctx raw = (Inr status, ctx')"
  shows "\<exists>stored old new. map_of (world ctx) (ID req) = Some stored \<and> Unmarshal stored = Inr old
      \<and> Marshal (old\<lparr>Owner := Owner req\<rparr>) = Inr new
      \<and> world ctx' = insert_entry (ID req) new (delete_entry (ID req) (world ctx))"
  using assms
  by (auto simp: TransferAsset_def AssetExists_eq ReadAsset_eq PutState_eq Marshal_def
      split: if_splits option.splits sum.splits)

text \<open>
  C1. A transfer request whose id is in the store, with the stored value decoding to the
  asset \<open>old\<close>: when TransferAsset succeeds, the value stored under the id decodes to
  \<open>old\<close> with only the owner replaced by the request's owner; color, size and
  appraised value (and the id) are those of the stored record, not of the request. No
  other key of the store changes.
\<close>

theorem TransferAsset_owner_only:
  assumes "Unmarshal raw = Inr req"
    and "map_of (world ctx) (ID req) = Some stored"
    and "Unmarshal stored = Inr old"
    and "TransferAsset ctx raw = (Inr status, ctx')"
  shows "(\<exists>new asset. map_of (world ctx') (ID req) = Some new \<and> Unmarshal new = Inr asset
           \<and> asset = old\<lparr>Owner := Owner req\<rparr>
           \<and> Owner asset = Owner req \<and> Color asset = Color old \<and> Size asset = Size old
           \<and> AppraisedValue asset = AppraisedValue old \<and> ID asset = ID old)
       \<and> (\<forall>k. k \<noteq> ID req \<longrightarrow> map_of (world ctx') k = map_of (world ctx) k)"
proof -
  from TransferAsset_success [OF assms(1,4)] assms(2,3)
  obtain new where m: "Marshal (old\<lparr>Owner := Owner req\<rparr>) = Inr new"
    and w: "world ctx' = insert_entry (ID req) new (delete_entry (ID req) (world ctx))"
    by auto
  have "valid_Asset (old\<lparr>Owner := Owner req\<rparr>)"
    using Unmarshal_valid [OF assms(1)] Unmarshal_valid [OF assms(3)] by (rule valid_Asset_Owner [rotated])
  then have "Unmarshal new = Inr (old\<lparr>Owner := Owner req\<rparr>)" using m by (rule Unmarshal_Marshal)
  then show ?thesis by (simp add: w map_of_put)
qed

theorem TransferAsset_owner_only_witness:
  "Unmarshal transfer_request =
     Inr \<lparr>ID = ''asset1'', Color = [], Size = 0, Owner = ''Bob'', AppraisedValue = 0\<rparr>
   \<and> map_of (world asset1_ledger) ''asset1'' = Some asset1_json
   \<and> Unmarshal asset1_json =
     Inr \<lparr>ID = ''asset1'', Color = ''blue'', Size = 5, Owner = ''Tomoko'', AppraisedValue = 300\<rparr>
   \<and> fst (TransferAsset asset1_ledger transfer_request) = Inr ''TransferAsset OK''
   \<and> (\<exists>new. map_of (world (snd (TransferAsset asset1_ledger transfer_request))) ''asset1'' = Some new
        \<and> Unmarshal new =
          Inr \<lparr>ID = ''asset1'', Color = ''blue'', Size = 5, Owner = ''Bob'', AppraisedValue = 300\<rparr>)"
proof -
  let ?req = "\<lparr>ID = ''asset1'', Color = [], Size = 0, Owner = ''Bob'', AppraisedValue = 0\<rparr>"
  let ?old = "\<lparr>ID = ''asset1'', Color = ''blue'', Size = 5, Owner = ''Tomoko'', AppraisedValue = 300\<rparr>"
  have h1: "Unmarshal transfer_request = Inr ?req" by code_simp
  have h2: "map_of (world asset1_ledger) (ID ?req) = Some asset1_json"
    by (simp add: asset1_ledger_def)
  have h3: "Unmarshal asset1_json = Inr ?old" by code_simp
  have ok: "fst (TransferAsset asset1_ledger transfer_request) = Inr ''TransferAsset OK''"
    by code_simp
  then have h4: "TransferAsset asset1_ledger transfer_request
      = (Inr ''TransferAsset OK'', snd (TransferAsset asset1_ledger transfer_request))"
    by (simp add: prod_eq_iff)
  from TransferAsset_owner_only [OF h1 h2 h3 h4] h1 h2 h3 ok
  show ?thesis by auto
qed

theorem CreateAsset_twice_witness:
  "Unmarshal asset1_json =
     Inr \<lparr>ID = ''asset1'', Color = ''blue'', Size = 5, Owner = ''Tomoko'', AppraisedValue = 300\<rparr>
   \<and> fst (CreateAsset \<lparr>world = [], faults = [], trace = []\<rparr> asset1_json) = Inr ''CreateAsset OK''
   \<and> fst (CreateAsset (snd (CreateAsset \<lparr>world = [], faults = [], trace = []\<rparr> asset1_json)) asset1_json)
       = Inl (AlreadyExists ''asset1'')
   \<and> world (snd (CreateAsset (snd (CreateAsset \<lparr>world = [], faults = [], trace = []\<rparr> asset1_json)) asset1_json))
       = world (snd (CreateAsset \<lparr>world = [], faults = [], trace = []\<rparr> asset1_json))"
proof -
  let ?ctx = "\<lparr>world = [], faults = [], trace = []\<rparr>"
  let ?a = "\<lparr>ID = ''asset1'', Color = ''blue'', Size = 5, Owner = ''Tomoko'', AppraisedValue = 300\<rparr>"
  have h1: "Unmarshal asset1_json = Inr ?a" by code_simp
  have ok: "fst (CreateAsset ?ctx asset1_json) = Inr ''CreateAsset OK''" by code_simp
  then have h2: "CreateAsset ?ctx asset1_json = (Inr ''CreateAsset OK'', snd (CreateAsset ?ctx asset1_json))"
    by (simp add: prod_eq_iff)
  have nf: "\<not> fails_next (snd (CreateAsset ?ctx asset1_json))" by code_simp
  from CreateAsset_twice [OF h1 h2] h1 ok nf
  show ?thesis by simp
qed

subsection \<open>Order of decoding, checking and writing\<close>

lemma new_calls_same [simp]: "new_calls l l = []"
  by (simp add: new_calls_def)

lemma new_calls_advance [simp]: "new_calls l (advance c l) = [c]"
  by (simp add: new_calls_def)

lemma new_calls_advance2 [simp]: "new_calls l (advance c2 (advance c l)) = [c, c2]"
  by (simp add: new_calls_def)

lemma new_calls_advance3 [simp]: "new_calls l (advance c3 (advance c2 (advance c l))) = [c, c2, c3]"
  by (simp add: new_calls_def)

lemma new_calls_world_update [simp]: "new_calls l (l'\<lparr>world := w\<rparr>) = new_calls l l'"
  by (simp add: new_calls_def)

lemma decode_error_first:
  assumes "Unmarshal raw = Inl e"
  shows "CreateAsset ctx raw = (Inl e, ctx)" "ReadAsset ctx raw = (Inl e, ctx)"
    "UpdateAsset ctx raw = (Inl e, ctx)" "DeleteAsset ctx raw = (Inl e, ctx)"
    "TransferAsset ctx raw = (Inl e, ctx)"
  using assms
  by (simp_all add: CreateAsset_def ReadAsset_def UpdateAsset_def DeleteAsset_def TransferAsset_def)

lemma CreateAsset_guard:
  assumes "touched ctx (snd (CreateAsset ctx raw))"
  shows "\<exists>req. Unmarshal raw = Inr req \<and> \<not> fails_next ctx \<and> map_of (world ctx) (ID req) = None
       \<and> take 1 (new_calls ctx (snd (CreateAsset ctx raw))) = [CallGetState (ID req)]"
proof (cases "Unmarshal raw")
  case (Inl e)
  with assms show ?thesis by (simp add: decode_error_first touched_def)
next
  case (Inr req)
  with assms show ?thesis
    by (auto simp: touched_def CreateAsset_def AssetExists_eq PutState_eq Marshal_def is_write_def
        split: if_splits)
qed

lemma UpdateAsset_guard:
  assumes "touched ctx (snd (UpdateAsset ctx raw))"
  shows "\<exists>req. Unmarshal raw = Inr req \<and> \<not> fails_next ctx \<and> map_of (world ctx) (ID req) \<noteq> None
       \<and> take 1 (new_calls ctx (snd (UpdateAsset ctx raw))) = [CallGetState (ID req)]"
proof (cases "Unmarshal raw")
  case (Inl e)
  with assms show ?thesis by (simp add: decode_error_first touched_def)
next
  case (Inr req)
  with assms show ?thesis
    by (auto simp: touched_def UpdateAsset_def AssetExists_eq PutState_eq Marshal_def is_write_def
        split: if_splits)
qed

lemma DeleteAsset_guard:
  assumes "touched ctx (snd (DeleteAsset ctx raw))"
  shows "\<exists>req. Unmarshal raw = Inr req \<and> \<not> fails_next ctx \<and> map_of (world ctx) (ID req) \<noteq> None
       \<and> take 1 (new_calls ctx (snd (DeleteAsset ctx raw))) = [CallGetState (ID req)]"
proof (cases "Unmarshal raw")
  case (Inl e)
  with assms show ?thesis by (simp add: decode_error_first touched_def)
next
  case (Inr req)
  with assms show ?thesis
    by (auto simp: touched_def DeleteAsset_def AssetExists_eq DelState_eq is_write_def
        split: if_splits)
qed

lemma TransferAsset_guard:
  assumes "touched ctx (snd (TransferAsset ctx raw))"
  shows "\<exists>req. Unmarshal raw = Inr req \<and> \<not> fails_next ctx \<and> map_of (world ctx) (ID req) \<noteq> None
       \<and> take 1 (new_calls ctx (snd (TransferAsset ctx raw))) = [CallGetState (ID req)]"
proof (cases "Unmarshal raw")
  case (Inl e)
  with assms show ?thesis by (simp add: decode_error_first touched_def)
next
  case (Inr req)
  with assms show ?thesis
    by (auto simp: touched_def TransferAsset_def AssetExists_eq ReadAsset_eq PutState_eq Marshal_def
        is_write_def split: if_splits option.splits sum.splits)
qed

lemma ReadAsset_no_write: "\<not> touched ctx (snd (ReadAsset ctx raw))"
proof (cases "Unmarshal raw")
  case (Inl e)
  then show ?thesis by (simp add: decode_error_first touched_def)
next
  case (Inr req)
  then show ?thesis by (simp add: ReadAsset_eq touched_def is_write_def)
qed

text \<open>
  C5. Decoding comes first: when the request does not decode, each of the five operations
  that take a request returns the decode error with the ledger as it was, so no call of
  the stub (no get, put or delete) was made and the store is unchanged. The check comes
  before the write: when CreateAsset, UpdateAsset, DeleteAsset or TransferAsset changed
  the store or made a writing call, the request decoded, the first call made was the
  GetState of its id, that call did not fail, and the precondition held in the store
  (the id absent for CreateAsset, present for the others). ReadAsset never writes.
\<close>

theorem check_before_write:
  "(\<forall>e. Unmarshal raw = Inl e \<longrightarrow>
        CreateAsset ctx raw = (Inl e, ctx) \<and> ReadAsset ctx raw = (Inl e, ctx)
      \<and> UpdateAsset ctx raw = (Inl e, ctx) \<and> DeleteAsset ctx raw = (Inl e, ctx)
      \<and> TransferAsset ctx raw = (Inl e, ctx))
   \<and> (touched ctx (snd (CreateAsset ctx raw)) \<longrightarrow>
        (\<exists>req. Unmarshal raw = Inr req \<and> \<not> fails_next ctx \<and> map_of (world ctx) (ID req) = None
           \<and> take 1 (new_calls ctx (snd (CreateAsset ctx raw))) = [CallGetState (ID req)]))
   \<and> (touched ctx (snd (UpdateAsset ctx raw)) \<longrightarrow>
        (\<exists>req. Unmarshal raw = Inr req \<and> \<not> fails_next ctx \<and> map_of (world ctx) (ID req) \<noteq> None
           \<and> take 1 (new_calls ctx (snd (UpdateAsset ctx raw))) = [CallGetState (ID req)]))
   \<and> (touched ctx (snd (DeleteAsset ctx raw)) \<longrightarrow>
        (\<exists>req. Unmarshal raw = Inr req \<and> \<not> fails_next ctx \<and> map_of (world ctx) (ID req) \<noteq> None
           \<and> take 1 (new_calls ctx (snd (DeleteAsset ctx raw))) = [CallGetState (ID req)]))
   \<and> (touched ctx (snd (TransferAsset ctx raw)) \<longrightarrow>
        (\<exists>req. Unmarshal raw = Inr req \<and> \<not> fails_next ctx \<and> map_of (world ctx) (ID req) \<noteq> None
           \<and> take 1 (new_calls ctx (snd (TransferAsset ctx raw))) = [CallGetState (ID req)]))
   \<and> \<not> touched ctx (snd (ReadAsset ctx raw))"
  using decode_error_first [of raw _ ctx] CreateAsset_guard [of ctx raw] UpdateAsset_guard [of ctx raw]
    DeleteAsset_guard [of ctx raw] TransferAsset_guard [of ctx raw] ReadAsset_no_write [of ctx raw]
  by blast

lemma Unmarshal_asset1_json:
  "Unmarshal asset1_json =
     Inr \<lparr>ID = ''asset1'', Color = ''blue'', Size = 5, Owner = ''Tomoko'', AppraisedValue = 300\<rparr>"
  by code_simp

lemma Unmarshal_open_brace: "Unmarshal ''{'' = Inl DecodeError"
  by code_simp

theorem check_before_write_witness:
  "Unmarshal ''{'' = Inl DecodeError
   \<and> CreateAsset asset1_ledger ''{'' = (Inl DecodeError, asset1_ledger)
   \<and> TransferAsset asset1_ledger ''{'' = (Inl DecodeError, asset1_ledger)
   \<and> touched empty_ledger (snd (CreateAsset empty_ledger asset1_json))
   \<and> map_of (world empty_ledger) ''asset1'' = None
   \<and> take 1 (new_calls empty_ledger (snd (CreateAsset empty_ledger asset1_json))) = [CallGetState ''asset1'']
   \<and> touched asset1_ledger (snd (UpdateAsset asset1_ledger asset1_json))
   \<and> touched asset1_ledger (snd (DeleteAsset asset1_ledger asset1_json))
   \<and> touched asset1_ledger (snd (TransferAsset asset1_ledger asset1_json))
   \<and> map_of (world asset1_ledger) ''asset1'' \<noteq> None
   \<and> take 1 (new_calls asset1_ledger (snd (UpdateAsset asset1_ledger asset1_json))) = [CallGetState ''asset1'']
   \<and> take 1 (new_calls asset1_ledger (snd (DeleteAsset asset1_ledger asset1_json))) = [CallGetState ''asset1'']
   \<and> take 1 (new_calls asset1_ledger (snd (TransferAsset asset1_ledger asset1_json))) = [CallGetState ''asset1'']"
proof -
  have t1: "touched empty_ledger (snd (CreateAsset empty_ledger asset1_json))" by code_simp
  have t2: "touched asset1_ledger (snd (UpdateAsset asset1_ledger asset1_json))" by code_simp
  have t3: "touched asset1_ledger (snd (DeleteAsset asset1_ledger asset1_json))" by code_simp
  have t4: "touched asset1_ledger (snd (TransferAsset asset1_ledger asset1_json))" by code_simp
  from check_before_write [of "''{''" asset1_ledger] Unmarshal_open_brace
  have a: "CreateAsset asset1_ledger ''{'' = (Inl DecodeError, asset1_ledger)"
    "TransferAsset asset1_ledger ''{'' = (Inl DecodeError, asset1_ledger)" by blast+
  from check_before_write [of asset1_json empty_ledger] t1 Unmarshal_asset1_json
  have b: "map_of (world empty_ledger) ''asset1'' = None"
    "take 1 (new_calls empty_ledger (snd (CreateAsset empty_ledger asset1_json))) = [CallGetState ''asset1'']"
    by auto
  from check_before_write [of asset1_json asset1_ledger] t2 t3 t4 Unmarshal_asset1_json
  have c: "map_of (world asset1_ledger) ''asset1'' \<noteq> None"
    "take 1 (new_calls asset1_ledger (snd (UpdateAsset asset1_ledger asset1_json))) = [CallGetState ''asset1'']"
    "take 1 (new_calls asset1_ledger (snd (DeleteAsset asset1_ledger asset1_json))) = [CallGetState ''asset1'']"
    "take 1 (new_calls asset1_ledger (snd (TransferAsset asset1_ledger asset1_json))) = [CallGetState ''asset1'']"
    by auto
  from Unmarshal_open_brace a t1 b t2 t3 t4 c show ?thesis by simp
qed

lemma store_member_None: "store_member f v a = None \<longleftrightarrow> \<not> well_typed f v"
  by (cases v; cases f)
    (auto simp: store_member_def store_string_def store_number_def well_typed_def split: option.splits)

lemma store_members_None: "store_members ms a = None \<longleftrightarrow> list_ex mistyped_member ms"
proof (induction ms a rule: store_members.induct)
  case (1 a)
  show ?case by simp
next
  case (2 k v ms a)
  show ?case
  proof (cases "field_of k")
    case None
    then show ?thesis using 2(1) by (simp add: mistyped_member_def)
  next
    case (Some f)
    show ?thesis
    proof (cases "store_member f v a")
      case None
      then show ?thesis using Some store_member_None [of f v a] by (simp add: mistyped_member_def)
    next
      case (Some a')
      then have "well_typed f v" using store_member_None [of f v a] by auto
      then show ?thesis using \<open>field_of k = Some f\<close> Some 2(2) [OF \<open>field_of k = Some f\<close> Some]
        by (simp add: mistyped_member_def)
    qed
  qed
qed

lemma Unmarshal_rejected: "Unmarshal data = Inl DecodeError \<longleftrightarrow> rejected data"
proof (cases "parse_json data")
  case None
  then show ?thesis by (simp add: Unmarshal_def rejected_def)
next
  case (Some v)
  show ?thesis
  proof (cases v)
    case (JObject ms)
    show ?thesis using store_members_None [of ms zero_Asset]
      by (cases "store_members ms zero_Asset") (simp_all add: Unmarshal_def rejected_def Some JObject)
  qed (simp_all add: Unmarshal_def rejected_def Some)
qed

lemma Unmarshal_error: "Unmarshal data = Inl e \<Longrightarrow> e = DecodeError"
  by (auto simp: Unmarshal_def split: option.splits json.splits)

text \<open>A request that holds only the id is accepted.\<close>

theorem missing_fields_accepted:
  \<open>Unmarshal ''{"asset_id":"asset1"}'' =
     Inr \<lparr>ID = ''asset1'', Color = [], Size = 0, Owner = [], AppraisedValue = 0\<rparr>
   \<and> fst (CreateAsset empty_ledger ''{"asset_id":"asset1"}'') = Inr ''CreateAsset OK''\<close>
  by code_simp

text \<open>
  C3. The claim that every JSON object with missing fields is refused fails: the request
  that holds only the id decodes, the other fields zero, and CreateAsset accepts it
  (\<open>missing_fields_accepted\<close>). What holds: Unmarshal fails, always with DecodeError,
  exactly on the input that is not JSON text, or whose top-level value is neither an object
  nor \<^verbatim>\<open>null\<close>, or that is an object with a mistyped field; and each of the five
  operations that decode a request returns that DecodeError, the ledger untouched, on
  such a payload.
\<close>

theorem decode_rejects:
  "(Unmarshal data = Inl DecodeError \<longleftrightarrow> rejected data)
   \<and> (\<forall>e. Unmarshal data = Inl e \<longrightarrow> e = DecodeError)
   \<and> (rejected data \<longrightarrow>
        CreateAsset ctx data = (Inl DecodeError, ctx) \<and> ReadAsset ctx data = (Inl DecodeError, ctx)
      \<and> UpdateAsset ctx data = (Inl DecodeError, ctx) \<and> DeleteAsset ctx data = (Inl DecodeError, ctx)
      \<and> TransferAsset ctx data = (Inl DecodeError, ctx))"
  using Unmarshal_rejected [of data] Unmarshal_error [of data]
    decode_error_first [of data DecodeError ctx]
  by blast

theorem decode_rejects_witness:
  "rejected ''{'' \<and> Unmarshal ''{'' = Inl DecodeError
   \<and> CreateAsset asset1_ledger ''{'' = (Inl DecodeError, asset1_ledger)
   \<and> rejected mistyped_request \<and> Unmarshal mistyped_request = Inl DecodeError
   \<and> UpdateAsset asset1_ledger mistyped_request = (Inl DecodeError, asset1_ledger)"
proof -
  have r1: "rejected ''{''" by code_simp
  have r2: "rejected mistyped_request" by code_simp
  from decode_rejects [of "''{''" asset1_ledger] decode_rejects [of mistyped_request asset1_ledger] r1 r2
  show ?thesis by blast
qed

end
